theory Spec2Isabelle
  imports Complex_Main "HOL-Library.Word"
begin

section \<open>Python strings\<close>

text \<open>
  A Python \<open>str\<close> is a sequence of Unicode code points. The currency symbols and the
  non-breaking space the importer handles lie outside ASCII, so a string is modelled as the
  list of its code points; \<open>str ''abc''\<close> writes an ASCII literal.
\<close>

type_synonym pystr = "nat list"

definition str :: "string \<Rightarrow> pystr" where
  "str s = map of_char s"

text \<open>\<open>str.isspace\<close> on one code point: the characters \<open>str.strip()\<close> removes.\<close>

definition is_space :: "nat \<Rightarrow> bool" where
  "is_space c \<longleftrightarrow>
     (9 \<le> c \<and> c \<le> 13) \<or> (28 \<le> c \<and> c \<le> 32) \<or> c = 133 \<or> c = 160 \<or> c = 5760 \<or>
     (8192 \<le> c \<and> c \<le> 8202) \<or> c = 8232 \<or> c = 8233 \<or> c = 8239 \<or> c = 8287 \<or> c = 12288"

definition strip :: "pystr \<Rightarrow> pystr" where
  "strip s = rev (dropWhile is_space (rev (dropWhile is_space s)))"

text \<open>
  \<open>str.lower()\<close>: on ASCII only \<open>A\<close>..\<open>Z\<close> change. The lower-casing of a code point
  outside ASCII comes from the Unicode database of the interpreter, which may look at the
  context (final sigma); it is the parameter \<open>U\<close>, given the whole string and the position.
\<close>

definition lower_ascii :: "nat \<Rightarrow> nat" where
  "lower_ascii c = (if 65 \<le> c \<and> c \<le> 90 then c + 32 else c)"

definition lower :: "(pystr \<Rightarrow> nat \<Rightarrow> pystr) \<Rightarrow> pystr \<Rightarrow> pystr" where
  "lower U s = concat (map (\<lambda>i. if s ! i < 128 then [lower_ascii (s ! i)] else U s i) [0..<length s])"

text \<open>
  \<open>s.replace(old, new)\<close>: left to right, non-overlapping. With an empty \<open>old\<close> Python
  puts \<open>new\<close> before every character and at the end.
\<close>

function replace :: "pystr \<Rightarrow> pystr \<Rightarrow> pystr \<Rightarrow> pystr" where
  "replace old new [] = (if old = [] then new else [])"
| "replace old new (c # cs) =
     (if old = [] then new @ c # replace old new cs
      else if take (length old) (c # cs) = old
        then new @ replace old new (drop (length old) (c # cs))
      else c # replace old new cs)"
  by pat_completeness auto
termination
  by (relation "measure (\<lambda>(old, new, s). length s)") (auto simp: neq_Nil_conv)

text \<open>The f-string rendering of a non-negative \<open>int\<close>: its decimal digits.\<close>

fun str_of_nat :: "nat \<Rightarrow> pystr" where
  "str_of_nat n = (if n < 10 then [48 + n] else str_of_nat (n div 10) @ [48 + n mod 10])"

declare str_of_nat.simps [simp del]

section \<open>Header resolution\<close>

text \<open>
  \<open>_normalize_header\<close>:
  \<^verbatim>\<open>(h or "").strip().lower().replace("\u00a0", " ").replace(" ", "").replace("-", "").replace("_", "")\<close>
\<close>

definition normalize_header :: "(pystr \<Rightarrow> nat \<Rightarrow> pystr) \<Rightarrow> pystr \<Rightarrow> pystr" where
  "normalize_header U h =
     replace (str ''_'') [] (replace (str ''-'') [] (replace (str '' '') []
       (replace [160] (str '' '') (lower U (strip h)))))"

text \<open>
  \<open>_dedupe_headers\<close>: the loop over \<open>headers\<close> with the dictionary \<open>seen\<close> and the list
  \<open>out\<close>. A header already in \<open>seen\<close> has its counter incremented and the new counter
  appended; a new header is entered with counter 0 and appended unchanged.
\<close>

fun dedupe_loop :: "(pystr \<rightharpoonup> nat) \<Rightarrow> pystr list \<Rightarrow> pystr list \<Rightarrow> pystr list" where
  "dedupe_loop seen out [] = out"
| "dedupe_loop seen out (h # hs) =
     (case seen h of
        Some c \<Rightarrow> dedupe_loop (seen(h \<mapsto> c + 1)) (out @ [h @ str_of_nat (c + 1)]) hs
      | None \<Rightarrow> dedupe_loop (seen(h \<mapsto> 0)) (out @ [h]) hs)"

definition dedupe_headers :: "pystr list \<Rightarrow> pystr list" where
  "dedupe_headers headers = dedupe_loop Map.empty [] headers"

text \<open>
  \<open>_build_header_map\<close>: the synonym table in its insertion order, the inner loop over
  \<open>enumerate(hdrs_norm)\<close> that stops at the first header in the key set, and the outer
  loop over the table.
\<close>

definition synonyms :: "(pystr \<times> pystr set) list" where
  "synonyms =
    [(str ''sku'', {str ''sku'', str ''productcode'', str ''code'', str ''itemcode'', str ''id'', str ''productid''}),
     (str ''name'', {str ''name'', str ''title'', str ''productname'', str ''descriptionshort'', str ''itemname''}),
     (str ''price'', {str ''price'', str ''unitprice'', str ''sellprice'', str ''rrp'', str ''priceex'', str ''priceinctax''}),
     (str ''stock'', {str ''stock'', str ''qty'', str ''quantity'', str ''onhand'', str ''inventory''}),
     (str ''category'', {str ''category'', str ''cat'', str ''segment''}),
     (str ''status'', {str ''status'', str ''state'', str ''enabled'', str ''active''}),
     (str ''image_path'', {str ''image'', str ''imagepath'', str ''imageurl'', str ''picture'', str ''img''}),
     (str ''description'', {str ''description'', str ''longdescription'', str ''fulldescription'', str ''details'', str ''notes''})]"

fun first_match :: "pystr set \<Rightarrow> nat \<Rightarrow> pystr list \<Rightarrow> nat option" where
  "first_match keys i [] = None"
| "first_match keys i (src # rest) = (if src \<in> keys then Some i else first_match keys (Suc i) rest)"

definition map_target :: "pystr list \<Rightarrow> pystr \<times> pystr set \<Rightarrow> (pystr \<rightharpoonup> nat) \<Rightarrow> (pystr \<rightharpoonup> nat)" where
  "map_target hdrs_norm tk mapping =
     (case first_match (snd tk) 0 hdrs_norm of
        Some i \<Rightarrow> mapping(fst tk \<mapsto> i)
      | None \<Rightarrow> mapping)"

definition build_header_map :: "pystr list \<Rightarrow> (pystr \<rightharpoonup> nat)" where
  "build_header_map hdrs_norm = fold (map_target hdrs_norm) synonyms Map.empty"

section \<open>Encoding detection\<close>

type_synonym byte = "8 word"

datatype encoding = UTF8_SIG | UTF8 | CP1252 | LATIN1 | UTF16 | UTF16LE | UTF16BE

definition startswith :: "'a list \<Rightarrow> 'a list \<Rightarrow> bool" where
  "startswith s p \<longleftrightarrow> take (length p) s = p"

text \<open>
  \<open>sample.decode(enc)\<close>: \<open>None\<close> when the codec raises. Latin-1 maps every byte to the
  code point of the same number; the strict decoders of the other codecs belong to the
  interpreter and are the parameter \<open>D\<close>.
\<close>

definition decode :: "(encoding \<Rightarrow> byte list \<Rightarrow> pystr option) \<Rightarrow> encoding \<Rightarrow> byte list \<Rightarrow> pystr option" where
  "decode D enc bs = (if enc = LATIN1 then Some (map unat bs) else D enc bs)"

definition candidates :: "encoding list" where
  "candidates = [UTF8, CP1252, LATIN1, UTF16, UTF16LE, UTF16BE]"

text \<open>The \<open>for enc in candidates\<close> loop with its \<open>try\<close>, and the \<open>return\<close> after it.\<close>

fun try_candidates :: "(encoding \<Rightarrow> byte list \<Rightarrow> pystr option) \<Rightarrow> byte list \<Rightarrow> encoding list \<Rightarrow> encoding \<times> bool" where
  "try_candidates D sample [] = (LATIN1, False)"
| "try_candidates D sample (enc # rest) =
     (case decode D enc sample of
        Some _ \<Rightarrow> (enc, False)
      | None \<Rightarrow> try_candidates D sample rest)"

text \<open>
  \<open>_detect_encoding\<close> on the bytes of a file that opens. The test for the UTF-32
  signatures in the source is followed by \<open>pass\<close> and decides nothing.
\<close>

definition detect_encoding :: "(encoding \<Rightarrow> byte list \<Rightarrow> pystr option) \<Rightarrow> byte list \<Rightarrow> encoding \<times> bool" where
  "detect_encoding D content =
     (let head = take 8 content in
      if startswith head [0xEF, 0xBB, 0xBF] then (UTF8_SIG, True)
      else if startswith head [0xFF, 0xFE] then (UTF16LE, True)
      else if startswith head [0xFE, 0xFF] then (UTF16BE, True)
      else try_candidates D (take 65536 content) candidates)"

section \<open>Cell sanitising and numeric coercion\<close>

text \<open>
  What the importer takes from the interpreter: the lower-casing of code points outside
  ASCII, \<open>float(s)\<close> (\<open>None\<close> when it raises) and \<open>int(x)\<close> of a float (\<open>None\<close> when it
  raises, on an infinity or a NaN). The type \<open>'f\<close> stands for Python's \<open>float\<close>, with
  \<open>0\<close> for \<open>0.0\<close>.
\<close>

record 'f runtime =
  unicode_lower :: "pystr \<Rightarrow> nat \<Rightarrow> pystr"
  float_of_str :: "pystr \<Rightarrow> 'f option"
  int_of_float :: "'f \<Rightarrow> int option"

definition sentinels :: "pystr set" where
  "sentinels = {str ''n/a'', str ''na'', str ''null'', str ''none'', str ''-''}"

text \<open>\<open>_to_float\<close>; the euro sign is U+20AC and the pound sign U+00A3.\<close>

definition to_float :: "('f::zero) runtime \<Rightarrow> pystr \<Rightarrow> 'f" where
  "to_float R x =
     (let s = strip x in
      if s = [] \<or> lower (unicode_lower R) s \<in> sentinels then 0
      else let s1 = replace [163] [] (replace [8364] [] (replace (str ''$'') [] s));
               s2 = replace (str '','') [] s1
           in case float_of_str R s2 of Some v \<Rightarrow> v | None \<Rightarrow> 0)"

text \<open>\<open>_to_int\<close>: \<open>int(float(s.replace(",", "")))\<close>, 0 when either conversion raises.\<close>

definition to_int :: "'f runtime \<Rightarrow> pystr \<Rightarrow> int" where
  "to_int R x =
     (let s = strip x in
      if s = [] \<or> lower (unicode_lower R) s \<in> sentinels then 0
      else case float_of_str R (replace (str '','') [] s) of
             None \<Rightarrow> 0
           | Some v \<Rightarrow> (case int_of_float R v of Some n \<Rightarrow> n | None \<Rightarrow> 0))"

text \<open>\<open>_sanitize_cell\<close>: NUL is code point 0, CR is 13 and LF is 10.\<close>

definition sanitize_cell :: "pystr \<Rightarrow> pystr" where
  "sanitize_cell s = strip (replace [13] [10] (replace [13, 10] [10] (replace [0] [] s)))"

section \<open>The product store\<close>

text \<open>
  A parameter tuple of the import, in the order of the SQL statements:
  sku, name, price, stock, category, status, image_path, description. The first
  component is the conflict key, the second the seven non-key columns.

  The table \<open>products\<close> is the list of its rows in rowid order. The \<open>id\<close> column is
  filled by the store and is neither written nor read by the import (the \<open>SELECT id\<close> of
  the fallback only tests whether a row came back), so a row is modelled by its eight
  other columns.
\<close>

type_synonym 'f cols = "pystr \<times> 'f \<times> int \<times> pystr \<times> pystr \<times> pystr \<times> pystr"
type_synonym 'f tpl = "pystr \<times> 'f cols"
type_synonym 'f table = "'f tpl list"

text \<open>
  The three statements act on the key and on the non-key columns as a whole, so their
  effect on the table is written for rows of any key and column type.
\<close>

definition has_sku :: "'k \<Rightarrow> ('k \<times> 'v) list \<Rightarrow> bool" where
  "has_sku s T \<longleftrightarrow> s \<in> set (map fst T)"

text \<open>\<open>UPDATE products SET name=?, ... WHERE sku=?\<close>\<close>

definition sql_update :: "'k \<times> 'v \<Rightarrow> ('k \<times> 'v) list \<Rightarrow> ('k \<times> 'v) list" where
  "sql_update t T = map (\<lambda>r. if fst r = fst t then (fst r, snd t) else r) T"

text \<open>\<open>INSERT INTO products (...) VALUES (...)\<close>: the new row gets the largest rowid.\<close>

definition sql_insert :: "'k \<times> 'v \<Rightarrow> ('k \<times> 'v) list \<Rightarrow> ('k \<times> 'v) list" where
  "sql_insert t T = T @ [t]"

text \<open>\<open>INSERT ... ON CONFLICT(sku) DO UPDATE SET\<close> every non-key column.\<close>

definition sql_upsert :: "'k \<times> 'v \<Rightarrow> ('k \<times> 'v) list \<Rightarrow> ('k \<times> 'v) list" where
  "sql_upsert t T = (if has_sku (fst t) T then sql_update t T else sql_insert t T)"

text \<open>
  Exceptions: \<open>sqlite3.OperationalError\<close>, which \<open>flush_batch\<close> catches; any other
  exception class; and the \<open>RecursionError\<close> of the interpreter. Each carries its message.
\<close>

datatype exn = OperationalError pystr | OtherError pystr | RecursionError pystr

fun exn_str :: "exn \<Rightarrow> pystr" where
  "exn_str (OperationalError m) = m"
| "exn_str (OtherError m) = m"
| "exn_str (RecursionError m) = m"

fun is_operational :: "exn \<Rightarrow> bool" where
  "is_operational (OperationalError m) = True"
| "is_operational _ = False"

datatype stmt = Begin | ExecuteMany | Upsert pystr | Select pystr | Update pystr | Insert pystr
  | Commit | Rollback

text \<open>
  The connection of one import run. \<open>committed\<close> is the table other connections and later
  runs see, \<open>pending\<close> the table inside the open transaction. \<open>supports_upsert\<close> says
  whether the SQLite library accepts the \<open>ON CONFLICT ... DO UPDATE\<close> form. The
  environment decides which statement executions fail: \<open>faults n\<close> is the exception raised
  by the \<open>n\<close>-th execution, counted by \<open>clock\<close>. \<open>trace\<close> logs what the connection was
  asked to do.
\<close>

record 'f conn =
  committed :: "'f table"
  pending :: "'f table"
  supports_upsert :: bool
  faults :: "nat \<Rightarrow> exn option"
  clock :: nat
  trace :: "stmt list"

text \<open>One statement execution: it raises, or applies its effect to the pending table.\<close>

definition execute :: "stmt \<Rightarrow> ('f table \<Rightarrow> 'f table) \<Rightarrow> 'f conn \<Rightarrow> exn option \<times> 'f conn" where
  "execute s f c =
     (let c' = c\<lparr>clock := Suc (clock c), trace := trace c @ [s]\<rparr> in
      case faults c (clock c) of
        Some e \<Rightarrow> (Some e, c')
      | None \<Rightarrow> (None, c'\<lparr>pending := f (pending c)\<rparr>))"

text \<open>
  \<open>cur.executemany(upsert_sql, batch)\<close>: the statement is prepared once, which a library
  without upsert rejects before any row is touched, and then run for each tuple in turn;
  rows applied before a failure stay in the transaction.
\<close>

fun executemany_rows :: "'f conn \<Rightarrow> 'f tpl list \<Rightarrow> exn option \<times> 'f conn" where
  "executemany_rows c [] = (None, c)"
| "executemany_rows c (t # ts) =
     (case execute (Upsert (fst t)) (sql_upsert t) c of
        (Some e, c') \<Rightarrow> (Some e, c')
      | (None, c') \<Rightarrow> executemany_rows c' ts)"

definition executemany :: "'f conn \<Rightarrow> 'f tpl list \<Rightarrow> exn option \<times> 'f conn" where
  "executemany c batch =
     (let c' = c\<lparr>trace := trace c @ [ExecuteMany]\<rparr> in
      if supports_upsert c then executemany_rows c' batch
      else (Some (OperationalError (str ''near ON: syntax error'')), c'))"

text \<open>
  The fallback loop \<open>for tpl in batch\<close>: \<open>SELECT id ... WHERE sku=?\<close>, then \<open>UPDATE\<close>
  when a row came back and \<open>INSERT\<close> otherwise.
\<close>

fun per_record :: "'f conn \<Rightarrow> 'f tpl list \<Rightarrow> exn option \<times> 'f conn" where
  "per_record c [] = (None, c)"
| "per_record c (t # ts) =
     (case execute (Select (fst t)) (\<lambda>T. T) c of
        (Some e, c1) \<Rightarrow> (Some e, c1)
      | (None, c1) \<Rightarrow>
          (case (if has_sku (fst t) (pending c1)
                 then execute (Update (fst t)) (sql_update t) c1
                 else execute (Insert (fst t)) (sql_insert t) c1) of
             (Some e, c2) \<Rightarrow> (Some e, c2)
           | (None, c2) \<Rightarrow> per_record c2 ts))"

definition begin_txn :: "'f conn \<Rightarrow> 'f conn" where
  "begin_txn c = c\<lparr>pending := committed c, trace := trace c @ [Begin]\<rparr>"

definition commit :: "'f conn \<Rightarrow> exn option \<times> 'f conn" where
  "commit c =
     (let c' = c\<lparr>clock := Suc (clock c), trace := trace c @ [Commit]\<rparr> in
      case faults c (clock c) of
        Some e \<Rightarrow> (Some e, c')
      | None \<Rightarrow> (None, c'\<lparr>committed := pending c\<rparr>))"

text \<open>\<open>conn.rollback()\<close> inside \<open>try ... except Exception: pass\<close>.\<close>

definition rollback :: "'f conn \<Rightarrow> 'f conn" where
  "rollback c = c\<lparr>pending := committed c, trace := trace c @ [Rollback]\<rparr>"

section \<open>The import worker\<close>

text \<open>The variables of \<open>worker\<close> that its loop and \<open>flush_batch\<close> change.\<close>

record 'f wstate =
  conn :: "'f conn"
  have_upsert :: bool
  batch :: "'f tpl list"
  skipped :: nat
  error_lines :: "pystr list"
  line_no :: nat

definition BATCH_SIZE :: nat where
  "BATCH_SIZE = 500"

text \<open>
  \<open>flush_batch\<close>. An \<open>OperationalError\<close> from either strategy clears \<open>have_upsert\<close> and
  calls \<open>flush_batch\<close> again; any other exception leaves the function before
  \<open>batch.clear()\<close>. The first argument is the number of nested calls the interpreter
  still allows: at 0 the call raises \<open>RecursionError\<close>.
\<close>

fun flush_batch :: "nat \<Rightarrow> 'f wstate \<Rightarrow> exn option \<times> 'f wstate" where
  "flush_batch 0 st = (Some (RecursionError (str ''maximum recursion depth exceeded'')), st)"
| "flush_batch (Suc d) st =
     (if batch st = [] then (None, st)
      else case (if have_upsert st then executemany (conn st) (batch st)
                 else per_record (conn st) (batch st)) of
        (None, c') \<Rightarrow> (None, st\<lparr>conn := c', batch := []\<rparr>)
      | (Some e, c') \<Rightarrow>
          if is_operational e then
            (case flush_batch d (st\<lparr>conn := c', have_upsert := False\<rparr>) of
               (None, st') \<Rightarrow> (None, st'\<lparr>batch := []\<rparr>)
             | (Some e', st') \<Rightarrow> (Some e', st'))
          else (Some e, st\<lparr>conn := c'\<rparr>))"

text \<open>The list comprehension \<open>vals\<close> and the closure \<open>get_by_target\<close>.\<close>

definition row_vals :: "nat \<Rightarrow> pystr list \<Rightarrow> pystr list" where
  "row_vals n row = map (\<lambda>i. if i < length row then sanitize_cell (row ! i) else []) [0..<n]"

definition get_by_target :: "(pystr \<rightharpoonup> nat) \<Rightarrow> pystr list \<Rightarrow> pystr \<Rightarrow> pystr" where
  "get_by_target target_map vals t =
     (case target_map t of
        None \<Rightarrow> []
      | Some idx \<Rightarrow> if idx < length vals then vals ! idx else [])"

definition missing_line :: "nat \<Rightarrow> pystr" where
  "missing_line n = str ''[Line '' @ str_of_nat n @ str ''] Missing SKU or Name; row skipped.''"

definition exn_line :: "nat \<Rightarrow> exn \<Rightarrow> pystr" where
  "exn_line n e = str ''[Line '' @ str_of_nat n @ str ''] '' @ exn_str e"

definition make_tpl :: "('f::zero) runtime \<Rightarrow> (pystr \<rightharpoonup> nat) \<Rightarrow> pystr list \<Rightarrow> 'f tpl" where
  "make_tpl R target_map vals =
     (let g = get_by_target target_map vals in
      (g (str ''sku''), g (str ''name''), to_float R (g (str ''price'')), to_int R (g (str ''stock'')),
       g (str ''category''), g (str ''status''), g (str ''image_path''), g (str ''description'')))"

text \<open>
  The body of \<open>for row in reader\<close>. The call of \<open>flush_batch\<close> stands inside the
  \<open>try\<close> of the row, so an exception it raises is handled by the row's
  \<open>except Exception\<close>.
\<close>

definition process_row ::
  "('f::zero) runtime \<Rightarrow> nat \<Rightarrow> nat \<Rightarrow> (pystr \<rightharpoonup> nat) \<Rightarrow> pystr list \<Rightarrow> 'f wstate \<Rightarrow> 'f wstate" where
  "process_row R rl n target_map row st =
     (let st1 = st\<lparr>line_no := line_no st + 1\<rparr>;
          vals = row_vals n row;
          sku = get_by_target target_map vals (str ''sku'');
          name = get_by_target target_map vals (str ''name'')
      in if sku = [] \<or> name = [] then
           st1\<lparr>skipped := skipped st1 + 1,
               error_lines := error_lines st1 @ [missing_line (line_no st1)]\<rparr>
         else
           let st2 = st1\<lparr>batch := batch st1 @ [make_tpl R target_map vals]\<rparr> in
           if length (batch st2) \<ge> BATCH_SIZE then
             (case flush_batch rl st2 of
                (None, st3) \<Rightarrow> st3
              | (Some e, st3) \<Rightarrow>
                  st3\<lparr>skipped := skipped st3 + 1,
                      error_lines := error_lines st3 @ [exn_line (line_no st3) e]\<rparr>)
           else st2)"

definition run_rows ::
  "('f::zero) runtime \<Rightarrow> nat \<Rightarrow> nat \<Rightarrow> (pystr \<rightharpoonup> nat) \<Rightarrow> pystr list list \<Rightarrow> 'f wstate \<Rightarrow> 'f wstate" where
  "run_rows R rl n target_map rows st = fold (process_row R rl n target_map) rows st"

datatype outcome = Done | Failed exn

text \<open>
  \<open>worker\<close> from the header row on, for a file that opened: \<open>file\<close> is the list of the
  records \<open>csv.reader\<close> yields, the header first. The result is \<open>Failed e\<close> when the outer
  \<open>except Exception\<close> ran (rollback, then the error dialog), and \<open>Done\<close> after the commit.
\<close>

definition worker ::
  "('f::zero) runtime \<Rightarrow> nat \<Rightarrow> pystr list list \<Rightarrow> 'f conn \<Rightarrow> outcome \<times> 'f wstate" where
  "worker R rl file c =
     (let st0 = \<lparr>conn = c, have_upsert = True, batch = [], skipped = 0, error_lines = [], line_no = 1\<rparr> in
      case file of
        [] \<Rightarrow> (Failed (OtherError (str ''File has no header row.'')), st0\<lparr>conn := rollback c\<rparr>)
      | raw_headers # rows \<Rightarrow>
          if raw_headers = [] then
            (Failed (OtherError (str ''File has no header row.'')), st0\<lparr>conn := rollback c\<rparr>)
          else
            let headers_norm = dedupe_headers (map (normalize_header (unicode_lower R)) raw_headers);
                target_map = build_header_map headers_norm;
                st1 = run_rows R rl (length headers_norm) target_map rows (st0\<lparr>conn := begin_txn c\<rparr>)
            in case flush_batch rl st1 of
                 (Some e, st2) \<Rightarrow> (Failed e, st2\<lparr>conn := rollback (conn st2)\<rparr>)
               | (None, st2) \<Rightarrow>
                   (case commit (conn st2) of
                      (Some e, c') \<Rightarrow> (Failed e, st2\<lparr>conn := rollback c'\<rparr>)
                    | (None, c') \<Rightarrow> (Done, st2\<lparr>conn := c'\<rparr>)))"

section \<open>Notions used to state the properties of an import run\<close>

text \<open>
  \<open>quiet c n\<close>: none of the next \<open>n\<close> statement executions on the connection raises.
  \<open>healthy c\<close>: no later execution raises, so that the only exception the store can
  give is the rejection of the upsert form.
\<close>

definition quiet :: "'f conn \<Rightarrow> nat \<Rightarrow> bool" where
  "quiet c n \<longleftrightarrow> (\<forall>k<n. faults c (clock c + k) = None)"

definition healthy :: "'f conn \<Rightarrow> bool" where
  "healthy c \<longleftrightarrow> (\<forall>k. faults c (clock c + k) = None)"

text \<open>The row test of the loop: the resolved sku cell or name cell is empty after cleaning.\<close>

definition row_rejected :: "(pystr \<rightharpoonup> nat) \<Rightarrow> pystr list \<Rightarrow> bool" where
  "row_rejected target_map vals \<longleftrightarrow>
     get_by_target target_map vals (str ''sku'') = [] \<or> get_by_target target_map vals (str ''name'') = []"




text \<open>
  \<open>frame c c'\<close>: from \<open>c\<close> to \<open>c'\<close> nothing was committed, and the store's capability and
  the environment's faults are the same; only time has passed.
\<close>

definition frame :: "'f conn \<Rightarrow> 'f conn \<Rightarrow> bool" where
  "frame c c' \<longleftrightarrow>
     committed c' = committed c \<and> supports_upsert c' = supports_upsert c \<and> faults c' = faults c
     \<and> clock c \<le> clock c'"

text \<open>How often the connection was asked to run the atomic upsert form.\<close>

definition upsert_attempts :: "'f conn \<Rightarrow> nat" where
  "upsert_attempts c = count_list (trace c) ExecuteMany"

section \<open>A small import, for concrete instances\<close>

text \<open>
  An interpreter whose \<open>float\<close> reads \<open>5.00\<close> and rejects everything else, a store
  connection on an empty table that never fails, with or without the upsert form, and the
  file
  \<^verbatim>\<open>SKU,Title\<close>, \<^verbatim>\<open>A1,Widget\<close>, \<^verbatim>\<open>,NoSku\<close>, \<^verbatim>\<open>A1,Gadget\<close>.
\<close>

definition demo_runtime :: "real runtime" where
  "demo_runtime =
     \<lparr>unicode_lower = (\<lambda>s i. [s ! i]),
      float_of_str = (\<lambda>s. if s = str ''5.00'' then Some 5 else None),
      int_of_float = (\<lambda>v. Some (floor v))\<rparr>"

definition demo_conn :: "bool \<Rightarrow> real conn" where
  "demo_conn b =
     \<lparr>committed = [], pending = [], supports_upsert = b, faults = (\<lambda>n. None), clock = 0, trace = []\<rparr>"


definition widget :: "real tpl" where
  "widget = (str ''A1'', str ''Widget'', 0, 0, [], [], [], [])"

definition gadget :: "real tpl" where
  "gadget = (str ''A1'', str ''Gadget'', 0, 0, [], [], [], [])"

text \<open>
  A longer import: 1001 data rows, all \<^verbatim>\<open>A1,Widget\<close>, on a connection whose statement
  execution number 500 (counted from 0) raises an exception that is not an
  \<open>OperationalError\<close>, once. The first batch of 500 rows takes the executions 0 to 499,
  so the failure is the first statement of the second mid-stream flush.
\<close>

definition long_file :: "pystr list list" where
  "long_file = [str ''SKU'', str ''Title''] # replicate 1001 [str ''A1'', str ''Widget'']"

definition disk_error :: exn where
  "disk_error = OtherError (str ''database disk image is malformed'')"

definition flaky_conn :: "real conn" where
  "flaky_conn =
     \<lparr>committed = [], pending = [], supports_upsert = True,
      faults = (\<lambda>n. if n = 500 then Some disk_error else None), clock = 0, trace = []\<rparr>"

section \<open>Properties of header resolution\<close>

lemma dedupe_loop_index:
  "dedupe_loop seen out hs =
     out @ map (\<lambda>i. let h = hs ! i;
                       c = (case seen h of None \<Rightarrow> 0 | Some k \<Rightarrow> Suc k) + count_list (take i hs) h
                   in if c = 0 then h else h @ str_of_nat c) [0..<length hs]"
proof (induction hs arbitrary: seen out)
  case Nil
  show ?case by simp
next
  case (Cons h t)
  show ?case
  proof (cases "seen h")
    case None
    then show ?thesis
      by (simp add: Cons.IH [of "seen(h \<mapsto> 0)"] map_upt_Suc Let_def del: upt_Suc)
  next
    case (Some k)
    then show ?thesis
      by (simp add: Cons.IH [of "seen(h \<mapsto> Suc k)"] map_upt_Suc Let_def del: upt_Suc)
  qed
qed

lemma length_dedupe_headers: "length (dedupe_headers hs) = length hs"
  by (simp add: dedupe_headers_def dedupe_loop_index)

lemma first_match_None: "first_match keys k hs = None \<longleftrightarrow> (\<forall>i<length hs. hs ! i \<notin> keys)"
proof (induction hs arbitrary: k)
  case Nil
  show ?case by simp
next
  case (Cons h t)
  show ?case
    by (auto simp: Cons.IH less_Suc_eq_0_disj)
qed

lemma first_match_Some:
  "first_match keys k hs = Some n \<longleftrightarrow>
     (\<exists>i<length hs. n = k + i \<and> hs ! i \<in> keys \<and> (\<forall>j<i. hs ! j \<notin> keys))"
proof (induction hs arbitrary: k)
  case Nil
  show ?case by simp
next
  case (Cons h t)
  show ?case
  proof (cases "h \<in> keys")
    case True
    have "(\<exists>i<Suc (length t). n = k + i \<and> (h # t) ! i \<in> keys \<and> (\<forall>j<i. (h # t) ! j \<notin> keys)) \<longleftrightarrow> n = k"
    proof
      assume "\<exists>i<Suc (length t). n = k + i \<and> (h # t) ! i \<in> keys \<and> (\<forall>j<i. (h # t) ! j \<notin> keys)"
      then obtain i where i: "n = k + i" "\<forall>j<i. (h # t) ! j \<notin> keys" by blast
      have "i = 0"
      proof (rule ccontr)
        assume "i \<noteq> 0"
        then have "(h # t) ! 0 \<notin> keys" using i(2) by blast
        then show False using True by simp
      qed
      then show "n = k" using i(1) by simp
    next
      assume "n = k"
      then show "\<exists>i<Suc (length t). n = k + i \<and> (h # t) ! i \<in> keys \<and> (\<forall>j<i. (h # t) ! j \<notin> keys)"
        using True by (intro exI [of _ 0]) simp
    qed
    then show ?thesis using True by auto
  next
    case False
    have "(\<exists>i<Suc (length t). n = k + i \<and> (h # t) ! i \<in> keys \<and> (\<forall>j<i. (h # t) ! j \<notin> keys)) \<longleftrightarrow>
          (\<exists>i<length t. n = Suc k + i \<and> t ! i \<in> keys \<and> (\<forall>j<i. t ! j \<notin> keys))"
      (is "?L \<longleftrightarrow> ?R")
    proof
      assume ?L
      then obtain i where i: "i < Suc (length t)" "n = k + i" "(h # t) ! i \<in> keys"
        "\<forall>j<i. (h # t) ! j \<notin> keys" by blast
      from i(3) False obtain i' where i': "i = Suc i'" by (cases i) auto
      have "\<forall>j<i'. t ! j \<notin> keys"
      proof (intro allI impI)
        fix j assume "j < i'"
        then have "(h # t) ! Suc j \<notin> keys" using i(4) i' by blast
        then show "t ! j \<notin> keys" by simp
      qed
      then show ?R using i i' by (intro exI [of _ i']) simp
    next
      assume ?R
      then obtain i where i: "i < length t" "n = Suc k + i" "t ! i \<in> keys" "\<forall>j<i. t ! j \<notin> keys"
        by blast
      have "\<forall>j<Suc i. (h # t) ! j \<notin> keys"
        using i(4) False by (auto simp: less_Suc_eq_0_disj)
      then show ?L using i by (intro exI [of _ "Suc i"]) simp
    qed
    then show ?thesis using False by (simp add: Cons.IH)
  qed
qed

lemma map_target_apply:
  "map_target hs (t, keys) m = (case first_match keys 0 hs of Some i \<Rightarrow> m(t \<mapsto> i) | None \<Rightarrow> m)"
  by (simp add: map_target_def split: option.splits)

lemma fold_map_target_other:
  "t \<notin> fst ` set tks \<Longrightarrow> fold (map_target hs) tks m t = m t"
  by (induction tks arbitrary: m) (auto simp: map_target_def split: option.splits)

lemma fold_map_target_hit:
  "distinct (map fst tks) \<Longrightarrow> (t, keys) \<in> set tks \<Longrightarrow>
   fold (map_target hs) tks m t = (case first_match keys 0 hs of Some i \<Rightarrow> Some i | None \<Rightarrow> m t)"
proof (induction tks arbitrary: m)
  case Nil
  then show ?case by simp
next
  case (Cons a tks)
  show ?case
  proof (cases "a = (t, keys)")
    case True
    then have "t \<notin> fst ` set tks" using Cons.prems(1) by auto
    then have "fold (map_target hs) tks (map_target hs a m) t = map_target hs a m t"
      by (rule fold_map_target_other)
    then show ?thesis
      using True by (simp add: map_target_apply split: option.splits)
  next
    case False
    then have mem: "(t, keys) \<in> set tks" using Cons.prems(2) by simp
    then have "fst a \<noteq> t" using Cons.prems(1) by (auto simp: image_iff)
    then have "map_target hs a m t = m t"
      by (simp add: map_target_def split: option.splits)
    then show ?thesis
      using Cons.IH [OF _ mem, of "map_target hs a m"] Cons.prems(1)
      by (simp split: option.splits)
  qed
qed

lemma distinct_synonym_targets: "distinct (map fst synonyms)"
  by (simp add: synonyms_def str_def)

lemma build_header_map_first_match:
  "(t, keys) \<in> set synonyms \<Longrightarrow> build_header_map hs t = first_match keys 0 hs"
  by (simp add: build_header_map_def fold_map_target_hit [OF distinct_synonym_targets]
      split: option.splits)

text \<open>
  C3, evaluated on the code. The raw header row \<open>Name, name, Name 1\<close> normalises to
  \<open>name, name, name1\<close>. The second \<open>name\<close> is renamed to \<open>name1\<close>, and the third header,
  new to \<open>seen\<close>, is kept as it is: the result holds \<open>name1\<close> twice. The generated names are
  never entered into \<open>seen\<close>, nor checked against it.
\<close>

theorem dedupe_headers_collision:
  "dedupe_headers (map (normalize_header U) [str ''Name'', str ''name'', str ''Name 1''])
     = [str ''name'', str ''name1'', str ''name1'']
   \<and> \<not> distinct (dedupe_headers (map (normalize_header U) [str ''Name'', str ''name'', str ''Name 1'']))"
proof -
  have n1: "normalize_header U (str ''Name'') = str ''name''"
    by (simp add: normalize_header_def strip_def is_space_def lower_def lower_ascii_def str_def upt_rec)
  have n2: "normalize_header U (str ''name'') = str ''name''"
    by (simp add: normalize_header_def strip_def is_space_def lower_def lower_ascii_def str_def upt_rec)
  have n3: "normalize_header U (str ''Name 1'') = str ''name1''"
    by (simp add: normalize_header_def strip_def is_space_def lower_def lower_ascii_def str_def upt_rec)
  have d: "dedupe_headers [str ''name'', str ''name'', str ''name1'']
             = [str ''name'', str ''name1'', str ''name1'']"
    by (simp add: dedupe_headers_def str_def str_of_nat.simps)
  show ?thesis
    by (simp add: n1 n2 n3 d)
qed

text \<open>
  C4 as stated fails on the code: the second \<open>name\<close> becomes \<open>name1\<close>, not \<open>name2\<close>.
\<close>

theorem dedupe_headers_name2_counterexample:
  "dedupe_headers [str ''name'', str ''name''] \<noteq> [str ''name'', str ''name2'']"
  by (simp add: dedupe_headers_def str_def str_of_nat.simps)

text \<open>
  C4, as the code has it. Deduplication keeps the length of the header sequence. The header
  at position \<open>i\<close> is kept unchanged when it did not occur before position \<open>i\<close>; when it
  occurred \<open>c > 0\<close> times before, the decimal digits of \<open>c\<close> are appended to it. So the
  second, third, ... occurrences of a token get the suffixes 1, 2, ..., and \<open>name, name\<close>
  becomes \<open>name, name1\<close>.
\<close>

theorem dedupe_headers_suffix:
  "length (dedupe_headers hs) = length hs
   \<and> (\<forall>i<length hs. dedupe_headers hs ! i =
         (let c = count_list (take i hs) (hs ! i)
          in if c = 0 then hs ! i else hs ! i @ str_of_nat c))
   \<and> dedupe_headers [str ''name'', str ''name''] = [str ''name'', str ''name1'']"
proof (intro conjI allI impI)
  show "length (dedupe_headers hs) = length hs"
    by (rule length_dedupe_headers)
next
  fix i assume "i < length hs"
  then show "dedupe_headers hs ! i =
      (let c = count_list (take i hs) (hs ! i) in if c = 0 then hs ! i else hs ! i @ str_of_nat c)"
    by (simp add: dedupe_headers_def dedupe_loop_index Let_def)
next
  show "dedupe_headers [str ''name'', str ''name''] = [str ''name'', str ''name1'']"
    by (simp add: dedupe_headers_def str_def str_of_nat.simps)
qed

theorem dedupe_headers_suffix_witness:
  "(3::nat) < length [str ''sku'', str ''name'', str ''sku'', str ''sku'']
   \<and> dedupe_headers [str ''sku'', str ''name'', str ''sku'', str ''sku''] ! 3 = str ''sku2''"
proof -
  let ?hs = "[str ''sku'', str ''name'', str ''sku'', str ''sku'']"
  have lt: "(3::nat) < length ?hs" by simp
  have "dedupe_headers ?hs ! 3 =
      (let c = count_list (take 3 ?hs) (?hs ! 3) in if c = 0 then ?hs ! 3 else ?hs ! 3 @ str_of_nat c)"
    using dedupe_headers_suffix [of ?hs] lt by blast
  then show ?thesis
    by (simp add: str_def str_of_nat.simps)
qed

text \<open>
  C8. The canonical target fields are the eight keys of the synonym table. For each of
  them, with its synonym set \<open>keys\<close>, the mapping holds the index \<open>i\<close> exactly when \<open>i\<close> is
  the leftmost column whose normalized header is in \<open>keys\<close>, and holds no index exactly
  when no column's header is in \<open>keys\<close>. Being a map, it gives a field at most one index.
\<close>

theorem build_header_map_leftmost:
  "map fst synonyms =
     [str ''sku'', str ''name'', str ''price'', str ''stock'', str ''category'', str ''status'',
      str ''image_path'', str ''description'']
   \<and> ((t, keys) \<in> set synonyms \<longrightarrow>
        (build_header_map hs t = Some i \<longleftrightarrow>
           i < length hs \<and> hs ! i \<in> keys \<and> (\<forall>j<i. hs ! j \<notin> keys))
        \<and> (build_header_map hs t = None \<longleftrightarrow> (\<forall>j<length hs. hs ! j \<notin> keys)))"
proof (intro conjI impI)
  show "map fst synonyms =
     [str ''sku'', str ''name'', str ''price'', str ''stock'', str ''category'', str ''status'',
      str ''image_path'', str ''description'']"
    by (simp add: synonyms_def)
next
  assume mem: "(t, keys) \<in> set synonyms"
  show "build_header_map hs t = Some i \<longleftrightarrow>
          i < length hs \<and> hs ! i \<in> keys \<and> (\<forall>j<i. hs ! j \<notin> keys)"
    by (simp add: build_header_map_first_match [OF mem] first_match_Some)
next
  assume mem: "(t, keys) \<in> set synonyms"
  show "build_header_map hs t = None \<longleftrightarrow> (\<forall>j<length hs. hs ! j \<notin> keys)"
    by (simp add: build_header_map_first_match [OF mem] first_match_None)
qed

theorem build_header_map_leftmost_witness:
  "(str ''stock'', {str ''stock'', str ''qty'', str ''quantity'', str ''onhand'', str ''inventory''})
      \<in> set synonyms
   \<and> build_header_map [str ''title'', str ''qty'', str ''stock'', str ''sku''] (str ''stock'') = Some 1"
proof -
  let ?keys = "{str ''stock'', str ''qty'', str ''quantity'', str ''onhand'', str ''inventory''}"
  let ?hs = "[str ''title'', str ''qty'', str ''stock'', str ''sku'']"
  have mem: "(str ''stock'', ?keys) \<in> set synonyms"
    by (simp add: synonyms_def)
  have "build_header_map ?hs (str ''stock'') = Some 1 \<longleftrightarrow>
          1 < length ?hs \<and> ?hs ! 1 \<in> ?keys \<and> (\<forall>j<1. ?hs ! j \<notin> ?keys)"
    using build_header_map_leftmost [of "str ''stock''" ?keys ?hs 1] mem by blast
  moreover have "1 < length ?hs \<and> ?hs ! 1 \<in> ?keys \<and> (\<forall>j<1. ?hs ! j \<notin> ?keys)"
    by (simp add: str_def)
  ultimately show ?thesis using mem by blast
qed

section \<open>Properties of encoding detection\<close>

lemma startswith_take:
  "length p \<le> n \<Longrightarrow> startswith (take n s) p \<longleftrightarrow> startswith s p"
  by (simp add: startswith_def min_def)

lemma try_candidates_decodes:
  "\<exists>enc. try_candidates D sample cands = (enc, False) \<and> decode D enc sample \<noteq> None"
proof (induction cands)
  case Nil
  show ?case by (simp add: decode_def)
next
  case (Cons enc rest)
  then show ?case by (cases "decode D enc sample") auto
qed

text \<open>
  C9. A file that starts with the byte-order mark of UTF-8, UTF-16LE or UTF-16BE gets the
  matching encoding with the flag set. Any other file gets, with the flag cleared, an
  encoding under which the sample of at most 65536 bytes decodes, whatever the strict
  decoders of the interpreter accept: the candidate list reaches Latin-1, which decodes
  every byte string. The detector is a total function of the file's bytes.
\<close>

theorem detect_encoding_bom_or_decodable:
  "(startswith content [0xEF, 0xBB, 0xBF] \<longrightarrow> detect_encoding D content = (UTF8_SIG, True))
   \<and> (startswith content [0xFF, 0xFE] \<longrightarrow> detect_encoding D content = (UTF16LE, True))
   \<and> (startswith content [0xFE, 0xFF] \<longrightarrow> detect_encoding D content = (UTF16BE, True))
   \<and> (\<not> startswith content [0xEF, 0xBB, 0xBF] \<and> \<not> startswith content [0xFF, 0xFE]
        \<and> \<not> startswith content [0xFE, 0xFF] \<longrightarrow>
        (\<exists>enc. detect_encoding D content = (enc, False)
               \<and> decode D enc (take 65536 content) \<noteq> None))
   \<and> (\<forall>bs. decode D LATIN1 bs \<noteq> None)"
proof -
  have sw: "startswith (take 8 content) [0xEF, 0xBB, 0xBF] = startswith content [0xEF, 0xBB, 0xBF]"
    "startswith (take 8 content) [0xFF, 0xFE] = startswith content [0xFF, 0xFE]"
    "startswith (take 8 content) [0xFE, 0xFF] = startswith content [0xFE, 0xFF]"
    by (simp_all add: startswith_take)
  have excl: "startswith content [0xFF, 0xFE] \<Longrightarrow> \<not> startswith content [0xEF, 0xBB, 0xBF]"
    "startswith content [0xFE, 0xFF] \<Longrightarrow> \<not> startswith content [0xEF, 0xBB, 0xBF]"
    "startswith content [0xFE, 0xFF] \<Longrightarrow> \<not> startswith content [0xFF, 0xFE]"
    by (cases content; simp add: startswith_def)+
  have a: "startswith content [0xEF, 0xBB, 0xBF] \<longrightarrow> detect_encoding D content = (UTF8_SIG, True)"
    by (simp add: detect_encoding_def Let_def sw)
  have b: "startswith content [0xFF, 0xFE] \<longrightarrow> detect_encoding D content = (UTF16LE, True)"
    using excl(1) by (simp add: detect_encoding_def Let_def sw)
  have c: "startswith content [0xFE, 0xFF] \<longrightarrow> detect_encoding D content = (UTF16BE, True)"
    using excl(2,3) by (simp add: detect_encoding_def Let_def sw)
  have d: "\<not> startswith content [0xEF, 0xBB, 0xBF] \<and> \<not> startswith content [0xFF, 0xFE]
        \<and> \<not> startswith content [0xFE, 0xFF] \<longrightarrow>
        (\<exists>enc. detect_encoding D content = (enc, False)
               \<and> decode D enc (take 65536 content) \<noteq> None)"
    using try_candidates_decodes [of D "take 65536 content" candidates]
    by (simp add: detect_encoding_def Let_def sw)
  have e: "\<forall>bs. decode D LATIN1 bs \<noteq> None"
    by (simp add: decode_def)
  show ?thesis using a b c d e by blast
qed

theorem detect_encoding_bom_or_decodable_witness:
  "startswith [0xFF, 0xFE, 0x41, 0x00 :: byte] [0xFF, 0xFE]
   \<and> detect_encoding (\<lambda>enc bs. None) [0xFF, 0xFE, 0x41, 0x00] = (UTF16LE, True)
   \<and> \<not> startswith [0x41, 0xFF :: byte] [0xEF, 0xBB, 0xBF]
   \<and> \<not> startswith [0x41, 0xFF :: byte] [0xFF, 0xFE]
   \<and> \<not> startswith [0x41, 0xFF :: byte] [0xFE, 0xFF]
   \<and> (\<exists>enc. detect_encoding (\<lambda>enc bs. None) [0x41, 0xFF] = (enc, False)
             \<and> decode (\<lambda>enc bs. None) enc (take 65536 [0x41, 0xFF]) \<noteq> None)"
proof -
  have h1: "startswith [0xFF, 0xFE, 0x41, 0x00 :: byte] [0xFF, 0xFE]"
    by (simp add: startswith_def)
  have h2: "\<not> startswith [0x41, 0xFF :: byte] [0xEF, 0xBB, 0xBF]"
    "\<not> startswith [0x41, 0xFF :: byte] [0xFF, 0xFE]"
    "\<not> startswith [0x41, 0xFF :: byte] [0xFE, 0xFF]"
    by (simp_all add: startswith_def)
  show ?thesis
    using h1 h2
      detect_encoding_bom_or_decodable [of "[0xFF, 0xFE, 0x41, 0x00]" "\<lambda>enc bs. None"]
      detect_encoding_bom_or_decodable [of "[0x41, 0xFF]" "\<lambda>enc bs. None"]
    by blast
qed

section \<open>Properties of the numeric coercion\<close>

lemma replace_single_filter: "replace [c] [] s = filter (\<lambda>x. x \<noteq> c) s"
  by (induction s) auto

lemma lower_ascii_only:
  "\<forall>c\<in>set s. c < 128 \<Longrightarrow> lower U s = map lower_ascii s"
proof -
  assume a: "\<forall>c\<in>set s. c < 128"
  have "map (\<lambda>i. if s ! i < 128 then [lower_ascii (s ! i)] else U s i) [0..<length s]
          = map (\<lambda>i. [lower_ascii (s ! i)]) [0..<length s]"
    using a by (intro map_cong) auto
  also have "\<dots> = map (\<lambda>c. [lower_ascii c]) (map (\<lambda>i. s ! i) [0..<length s])"
    by simp
  also have "\<dots> = map (\<lambda>c. [lower_ascii c]) s"
    by (simp only: map_nth)
  finally show ?thesis
    by (simp add: lower_def concat_map_singleton)
qed

text \<open>
  C7. With \<open>s\<close> the trimmed cell: a blank \<open>s\<close>, or one whose lower-casing is a sentinel,
  gives 0.0. Otherwise the dollar, euro and pound signs and the commas are removed from
  \<open>s\<close> and the rest is given to \<open>float\<close>; the result is the parsed number, and 0.0 when
  \<open>float\<close> raises. The function returns a number for every cell. \<open>N/A\<close> gives 0.0;
  \<open>$1,234.50\<close> gives what \<open>float\<close> makes of \<open>1234.50\<close>; \<open>abc\<close> gives 0.0 as \<open>float\<close>
  rejects it.
\<close>

theorem to_float_blank_sentinel_parse:
  "(strip x = [] \<or> lower (unicode_lower R) (strip x) \<in> sentinels \<longrightarrow> to_float R x = 0)
   \<and> ((\<forall>c\<in>set (strip x). c < 128) \<and> map lower_ascii (strip x) \<in> sentinels \<longrightarrow> to_float R x = 0)
   \<and> (\<not> (strip x = [] \<or> lower (unicode_lower R) (strip x) \<in> sentinels) \<longrightarrow>
        to_float R x =
          (case float_of_str R (filter (\<lambda>c. c \<notin> {36, 8364, 163, 44}) (strip x)) of
             Some v \<Rightarrow> v
           | None \<Rightarrow> 0))
   \<and> to_float R (str ''N/A'') = 0
   \<and> (float_of_str R (str ''1234.50'') = Some v \<longrightarrow> to_float R (str ''$1,234.50'') = v)
   \<and> (float_of_str R (str ''abc'') = None \<longrightarrow> to_float R (str ''abc'') = 0)"
proof -
  have flt: "replace (str '','') [] (replace [163] [] (replace [8364] [] (replace (str ''$'') [] s)))
               = filter (\<lambda>c. c \<notin> {36, 8364, 163, 44}) s" for s
    by (simp add: str_def replace_single_filter conj_commute conj_left_commute)
  have a: "strip x = [] \<or> lower (unicode_lower R) (strip x) \<in> sentinels \<longrightarrow> to_float R x = 0"
    by (simp add: to_float_def Let_def)
  have b: "(\<forall>c\<in>set (strip x). c < 128) \<and> map lower_ascii (strip x) \<in> sentinels \<longrightarrow> to_float R x = 0"
    using a by (auto simp: lower_ascii_only)
  have c: "\<not> (strip x = [] \<or> lower (unicode_lower R) (strip x) \<in> sentinels) \<longrightarrow>
        to_float R x =
          (case float_of_str R (filter (\<lambda>c. c \<notin> {36, 8364, 163, 44}) (strip x)) of
             Some v \<Rightarrow> v
           | None \<Rightarrow> 0)"
    by (simp add: to_float_def Let_def flt)
  have d: "to_float R (str ''N/A'') = 0"
    by (simp add: to_float_def Let_def strip_def is_space_def lower_def lower_ascii_def
        sentinels_def str_def upt_rec)
  have e: "float_of_str R (str ''1234.50'') = Some v \<longrightarrow> to_float R (str ''$1,234.50'') = v"
    by (simp add: to_float_def Let_def strip_def is_space_def lower_def lower_ascii_def
        sentinels_def str_def upt_rec)
  have f: "float_of_str R (str ''abc'') = None \<longrightarrow> to_float R (str ''abc'') = 0"
    by (simp add: to_float_def Let_def strip_def is_space_def lower_def lower_ascii_def
        sentinels_def str_def upt_rec)
  show ?thesis using a b c d e f by blast
qed

theorem to_float_blank_sentinel_parse_witness:
  "float_of_str \<lparr>unicode_lower = (\<lambda>s i. [s ! i]),
                 float_of_str = (\<lambda>s. if s = str ''1234.50'' then Some (1234.5 :: real) else None),
                 int_of_float = (\<lambda>v. Some (floor v))\<rparr> (str ''1234.50'') = Some 1234.5
   \<and> to_float \<lparr>unicode_lower = (\<lambda>s i. [s ! i]),
               float_of_str = (\<lambda>s. if s = str ''1234.50'' then Some (1234.5 :: real) else None),
               int_of_float = (\<lambda>v. Some (floor v))\<rparr> (str ''$1,234.50'') = 1234.5
   \<and> float_of_str \<lparr>unicode_lower = (\<lambda>s i. [s ! i]),
                 float_of_str = (\<lambda>s. if s = str ''1234.50'' then Some (1234.5 :: real) else None),
                 int_of_float = (\<lambda>v. Some (floor v))\<rparr> (str ''abc'') = None
   \<and> to_float \<lparr>unicode_lower = (\<lambda>s i. [s ! i]),
               float_of_str = (\<lambda>s. if s = str ''1234.50'' then Some (1234.5 :: real) else None),
               int_of_float = (\<lambda>v. Some (floor v))\<rparr> (str ''abc'') = 0"
proof -
  let ?R = "\<lparr>unicode_lower = (\<lambda>s i. [s ! i]),
             float_of_str = (\<lambda>s. if s = str ''1234.50'' then Some (1234.5 :: real) else None),
             int_of_float = (\<lambda>v. Some (floor v))\<rparr>"
  have h1: "float_of_str ?R (str ''1234.50'') = Some 1234.5" by simp
  have h2: "float_of_str ?R (str ''abc'') = None" by (simp add: str_def)
  show ?thesis
    using h1 h2 to_float_blank_sentinel_parse [of "str ''abc''" ?R "1234.5"]
    by blast
qed

section \<open>The store operations\<close>

lemma frame_refl: "frame c c"
  by (simp add: frame_def)

lemma frame_trans: "frame a b \<Longrightarrow> frame b c \<Longrightarrow> frame a c"
  by (simp add: frame_def)

lemma healthy_frame: "healthy c \<Longrightarrow> frame c c' \<Longrightarrow> healthy c'"
proof -
  assume h: "healthy c" and f: "frame c c'"
  have "faults c' (clock c' + k) = None" for k
  proof -
    have "faults c (clock c + (clock c' - clock c + k)) = None"
      using h unfolding healthy_def by blast
    moreover have "clock c + (clock c' - clock c + k) = clock c' + k"
      using f by (simp add: frame_def)
    moreover have "faults c' = faults c"
      using f by (simp add: frame_def)
    ultimately show ?thesis by simp
  qed
  then show ?thesis by (simp add: healthy_def)
qed

lemma healthy_now: "healthy c \<Longrightarrow> faults c (clock c) = None"
  using healthy_def [of c] by (metis add.right_neutral)

lemma execute_frame: "execute s f c = (r, c') \<Longrightarrow> frame c c'"
  by (auto simp: execute_def Let_def frame_def split: option.splits)

lemma execute_attempts:
  "execute s f c = (r, c') \<Longrightarrow> s \<noteq> ExecuteMany \<Longrightarrow> upsert_attempts c' = upsert_attempts c"
  by (auto simp: execute_def Let_def upsert_attempts_def split: option.splits)

lemma execute_ok:
  "faults c (clock c) = None \<Longrightarrow>
   execute s f c = (None, c\<lparr>clock := Suc (clock c), trace := trace c @ [s], pending := f (pending c)\<rparr>)"
  by (simp add: execute_def Let_def)

lemma execute_raises:
  "faults c (clock c) = Some e \<Longrightarrow>
   execute s f c = (Some e, c\<lparr>clock := Suc (clock c), trace := trace c @ [s]\<rparr>)"
  by (simp add: execute_def Let_def)

lemma executemany_rows_frame: "executemany_rows c ts = (r, c') \<Longrightarrow> frame c c'"
proof (induction ts arbitrary: c)
  case Nil
  then show ?case by (simp add: frame_refl)
next
  case (Cons t ts)
  obtain r1 c1 where e: "execute (Upsert (fst t)) (sql_upsert t) c = (r1, c1)"
    by (cases "execute (Upsert (fst t)) (sql_upsert t) c")
  have f1: "frame c c1" using e by (rule execute_frame)
  show ?case
  proof (cases r1)
    case None
    then have "executemany_rows c1 ts = (r, c')" using Cons.prems e by simp
    then show ?thesis using Cons.IH f1 frame_trans by blast
  next
    case (Some x)
    then have "c' = c1" using Cons.prems e by simp
    then show ?thesis using f1 by simp
  qed
qed

lemma executemany_rows_attempts:
  "executemany_rows c ts = (r, c') \<Longrightarrow> upsert_attempts c' = upsert_attempts c"
proof (induction ts arbitrary: c)
  case Nil
  then show ?case by simp
next
  case (Cons t ts)
  obtain r1 c1 where e: "execute (Upsert (fst t)) (sql_upsert t) c = (r1, c1)"
    by (cases "execute (Upsert (fst t)) (sql_upsert t) c")
  have a1: "upsert_attempts c1 = upsert_attempts c" using e by (rule execute_attempts) simp
  show ?case
  proof (cases r1)
    case None
    then have "executemany_rows c1 ts = (r, c')" using Cons.prems e by simp
    then show ?thesis using Cons.IH a1 by simp
  next
    case (Some x)
    then have "c' = c1" using Cons.prems e by simp
    then show ?thesis using a1 by simp
  qed
qed


lemma executemany_frame: "executemany c ts = (r, c') \<Longrightarrow> frame c c'"
proof -
  assume a: "executemany c ts = (r, c')"
  have f0: "frame c (c\<lparr>trace := trace c @ [ExecuteMany]\<rparr>)"
    by (simp add: frame_def)
  show ?thesis
  proof (cases "supports_upsert c")
    case True
    then have "executemany_rows (c\<lparr>trace := trace c @ [ExecuteMany]\<rparr>) ts = (r, c')"
      using a by (simp add: executemany_def Let_def)
    then show ?thesis using executemany_rows_frame f0 frame_trans by blast
  next
    case False
    then show ?thesis using a f0 by (auto simp: executemany_def Let_def)
  qed
qed



lemma per_record_frame: "per_record c ts = (r, c') \<Longrightarrow> frame c c'"
proof (induction ts arbitrary: c)
  case Nil
  then show ?case by (simp add: frame_refl)
next
  case (Cons t ts)
  obtain r1 c1 where e1: "execute (Select (fst t)) (\<lambda>T. T) c = (r1, c1)"
    by (cases "execute (Select (fst t)) (\<lambda>T. T) c")
  have f1: "frame c c1" using e1 by (rule execute_frame)
  show ?case
  proof (cases r1)
    case (Some x)
    then have "c' = c1" using Cons.prems e1 by simp
    then show ?thesis using f1 by simp
  next
    case None
    obtain r2 c2 where e2:
      "(if has_sku (fst t) (pending c1) then execute (Update (fst t)) (sql_update t) c1
        else execute (Insert (fst t)) (sql_insert t) c1) = (r2, c2)"
      by (cases "if has_sku (fst t) (pending c1) then execute (Update (fst t)) (sql_update t) c1
        else execute (Insert (fst t)) (sql_insert t) c1")
    have f2: "frame c1 c2" using e2 execute_frame by (metis (full_types))
    show ?thesis
    proof (cases r2)
      case (Some x)
      then have "c' = c2" using Cons.prems e1 e2 None by simp
      then show ?thesis using f1 f2 frame_trans by blast
    next
      case None2: None
      then have "per_record c2 ts = (r, c')" using Cons.prems e1 e2 None by simp
      then have "frame c2 c'" by (rule Cons.IH)
      then show ?thesis using f1 f2 frame_trans by blast
    qed
  qed
qed

lemma per_record_attempts:
  "per_record c ts = (r, c') \<Longrightarrow> upsert_attempts c' = upsert_attempts c"
proof (induction ts arbitrary: c)
  case Nil
  then show ?case by simp
next
  case (Cons t ts)
  obtain r1 c1 where e1: "execute (Select (fst t)) (\<lambda>T. T) c = (r1, c1)"
    by (cases "execute (Select (fst t)) (\<lambda>T. T) c")
  have a1: "upsert_attempts c1 = upsert_attempts c" using e1 by (rule execute_attempts) simp
  show ?case
  proof (cases r1)
    case (Some x)
    then have "c' = c1" using Cons.prems e1 by simp
    then show ?thesis using a1 by simp
  next
    case None
    obtain r2 c2 where e2:
      "(if has_sku (fst t) (pending c1) then execute (Update (fst t)) (sql_update t) c1
        else execute (Insert (fst t)) (sql_insert t) c1) = (r2, c2)"
      by (cases "if has_sku (fst t) (pending c1) then execute (Update (fst t)) (sql_update t) c1
        else execute (Insert (fst t)) (sql_insert t) c1")
    have a2: "upsert_attempts c2 = upsert_attempts c1"
      using e2 by (auto split: if_splits dest: execute_attempts)
    show ?thesis
    proof (cases r2)
      case (Some x)
      then have "c' = c2" using Cons.prems e1 e2 None by simp
      then show ?thesis using a1 a2 by simp
    next
      case None2: None
      then have "per_record c2 ts = (r, c')" using Cons.prems e1 e2 None by simp
      then have "upsert_attempts c' = upsert_attempts c2" by (rule Cons.IH)
      then show ?thesis using a1 a2 by simp
    qed
  qed
qed

lemma per_record_healthy:
  "healthy c \<Longrightarrow> \<exists>c'. per_record c ts = (None, c') \<and> pending c' = fold sql_upsert ts (pending c)"
proof (induction ts arbitrary: c)
  case Nil
  then show ?case by simp
next
  case (Cons t ts)
  let ?c1 = "c\<lparr>clock := Suc (clock c), trace := trace c @ [Select (fst t)]\<rparr>"
  have e1: "execute (Select (fst t)) (\<lambda>T. T) c = (None, ?c1)"
    using Cons.prems by (simp add: execute_def Let_def healthy_now)
  have h1: "healthy ?c1"
    using healthy_frame [OF Cons.prems execute_frame [OF e1]] .
  have "\<exists>c2. (if has_sku (fst t) (pending ?c1) then execute (Update (fst t)) (sql_update t) ?c1
      else execute (Insert (fst t)) (sql_insert t) ?c1) = (None, c2)
      \<and> pending c2 = sql_upsert t (pending c)"
    using healthy_now [OF h1]
    by (cases "has_sku (fst t) (pending c)") (simp_all add: execute_def Let_def sql_upsert_def)
  then obtain c2 where e2:
    "(if has_sku (fst t) (pending ?c1) then execute (Update (fst t)) (sql_update t) ?c1
      else execute (Insert (fst t)) (sql_insert t) ?c1) = (None, c2)"
    and p2: "pending c2 = sql_upsert t (pending c)"
    by blast
  have "frame ?c1 c2" using e2 execute_frame by (metis (full_types))
  then have "healthy c2" using h1 healthy_frame by blast
  from Cons.IH [OF this] obtain c' where
    "per_record c2 ts = (None, c')" "pending c' = fold sql_upsert ts (pending c2)"
    by blast
  then show ?case using e1 e2 p2 by simp
qed

section \<open>Flushing a batch\<close>

lemma flush_batch_frame:
  "flush_batch d st = (r, st') \<Longrightarrow>
   frame (conn st) (conn st') \<and> skipped st' = skipped st \<and> error_lines st' = error_lines st
   \<and> line_no st' = line_no st \<and> (have_upsert st' \<longrightarrow> have_upsert st)"
proof (induction d arbitrary: st r st')
  case 0
  then show ?case by (auto simp: frame_refl)
next
  case (Suc d)
  show ?case
  proof (cases "batch st = []")
    case True
    then show ?thesis using Suc.prems by (auto simp: frame_refl)
  next
    case False
    obtain r1 c1 where a: "(if have_upsert st then executemany (conn st) (batch st)
                 else per_record (conn st) (batch st)) = (r1, c1)"
      by (cases "if have_upsert st then executemany (conn st) (batch st)
                 else per_record (conn st) (batch st)")
    have f1: "frame (conn st) c1"
      using a executemany_frame per_record_frame by (metis (full_types))
    show ?thesis
    proof (cases r1)
      case None
      then have "st' = st\<lparr>conn := c1, batch := []\<rparr>"
        using Suc.prems False a by simp
      then show ?thesis using f1 by simp
    next
      case (Some e)
      show ?thesis
      proof (cases "is_operational e")
        case False
        then have "st' = st\<lparr>conn := c1\<rparr>"
          using Suc.prems \<open>batch st \<noteq> []\<close> a Some by simp
        then show ?thesis using f1 by simp
      next
        case True
        obtain r2 st2 where b: "flush_batch d (st\<lparr>conn := c1, have_upsert := False\<rparr>) = (r2, st2)"
          by (cases "flush_batch d (st\<lparr>conn := c1, have_upsert := False\<rparr>)")
        from Suc.IH [OF b] have ih:
          "frame c1 (conn st2)" "skipped st2 = skipped st" "error_lines st2 = error_lines st"
          "line_no st2 = line_no st" "\<not> have_upsert st2"
          by simp_all
        have "st' = st2 \<or> st' = st2\<lparr>batch := []\<rparr>"
          using Suc.prems \<open>batch st \<noteq> []\<close> a Some True b by (cases r2) auto
        then show ?thesis using ih f1 frame_trans by auto
      qed
    qed
  qed
qed

lemma flush_batch_per_record_attempts:
  "flush_batch d st = (r, st') \<Longrightarrow> \<not> have_upsert st \<Longrightarrow>
   upsert_attempts (conn st') = upsert_attempts (conn st)"
proof (induction d arbitrary: st r st')
  case 0
  then show ?case by auto
next
  case (Suc d)
  show ?case
  proof (cases "batch st = []")
    case True
    then show ?thesis using Suc.prems by auto
  next
    case False
    obtain r1 c1 where a: "per_record (conn st) (batch st) = (r1, c1)"
      by (cases "per_record (conn st) (batch st)")
    have a1: "upsert_attempts c1 = upsert_attempts (conn st)"
      using a by (rule per_record_attempts)
    show ?thesis
    proof (cases r1)
      case None
      then have "st' = st\<lparr>conn := c1, batch := []\<rparr>"
        using Suc.prems False a by simp
      then show ?thesis using a1 by simp
    next
      case (Some e)
      show ?thesis
      proof (cases "is_operational e")
        case False
        then have "st' = st\<lparr>conn := c1\<rparr>"
          using Suc.prems \<open>batch st \<noteq> []\<close> a Some by simp
        then show ?thesis using a1 by simp
      next
        case True
        obtain r2 st2 where b: "flush_batch d (st\<lparr>conn := c1, have_upsert := False\<rparr>) = (r2, st2)"
          by (cases "flush_batch d (st\<lparr>conn := c1, have_upsert := False\<rparr>)")
        from Suc.IH [OF b] have ih: "upsert_attempts (conn st2) = upsert_attempts c1"
          by simp
        have "st' = st2 \<or> st' = st2\<lparr>batch := []\<rparr>"
          using Suc.prems \<open>batch st \<noteq> []\<close> a Some True b by (cases r2) auto
        then show ?thesis using ih a1 by auto
      qed
    qed
  qed
qed



section \<open>The row loop\<close>

lemma process_row_rejected:
  "row_rejected tm (row_vals n row) \<Longrightarrow>
   process_row R rl n tm row st =
     st\<lparr>line_no := line_no st + 1, skipped := skipped st + 1,
        error_lines := error_lines st @ [missing_line (line_no st + 1)]\<rparr>"
  by (simp add: process_row_def row_rejected_def Let_def)

lemma process_row_buffered:
  "\<not> row_rejected tm (row_vals n row) \<Longrightarrow> length (batch st) + 1 < BATCH_SIZE \<Longrightarrow>
   process_row R rl n tm row st =
     st\<lparr>line_no := line_no st + 1, batch := batch st @ [make_tpl R tm (row_vals n row)]\<rparr>"
  by (simp add: process_row_def row_rejected_def Let_def)

lemma process_row_flushing:
  "\<not> row_rejected tm (row_vals n row) \<Longrightarrow> BATCH_SIZE \<le> length (batch st) + 1 \<Longrightarrow>
   process_row R rl n tm row st =
     (case flush_batch rl (st\<lparr>line_no := line_no st + 1,
                               batch := batch st @ [make_tpl R tm (row_vals n row)]\<rparr>) of
        (None, st3) \<Rightarrow> st3
      | (Some e, st3) \<Rightarrow>
          st3\<lparr>skipped := skipped st3 + 1,
              error_lines := error_lines st3 @ [exn_line (line_no st3) e]\<rparr>)"
  by (simp add: process_row_def row_rejected_def Let_def)

lemma process_row_cases:
  obtains (rejected) "row_rejected tm (row_vals n row)"
  | (buffered) "\<not> row_rejected tm (row_vals n row)" "length (batch st) + 1 < BATCH_SIZE"
  | (flushing) "\<not> row_rejected tm (row_vals n row)" "BATCH_SIZE \<le> length (batch st) + 1"
  by fastforce

lemma process_row_frame:
  "frame (conn st) (conn (process_row R rl n tm row st))
   \<and> line_no (process_row R rl n tm row st) = line_no st + 1
   \<and> (\<exists>suf. error_lines (process_row R rl n tm row st) = error_lines st @ suf)
   \<and> (have_upsert (process_row R rl n tm row st) \<longrightarrow> have_upsert st)"
proof (cases rule: process_row_cases [where tm = tm and n = n and row = row and st = st])
  case rejected
  then show ?thesis by (simp add: process_row_rejected frame_refl)
next
  case buffered
  then show ?thesis by (simp add: process_row_buffered frame_refl)
next
  case flushing
  let ?st2 = "st\<lparr>line_no := line_no st + 1, batch := batch st @ [make_tpl R tm (row_vals n row)]\<rparr>"
  obtain r st3 where f: "flush_batch rl ?st2 = (r, st3)"
    by (cases "flush_batch rl ?st2")
  from flush_batch_frame [OF f] have fr:
    "frame (conn st) (conn st3)" "error_lines st3 = error_lines st" "line_no st3 = line_no st + 1"
    "have_upsert st3 \<longrightarrow> have_upsert st"
    by simp_all
  show ?thesis
    using fr f by (cases r) (simp_all add: process_row_flushing [OF flushing])
qed

lemma process_row_per_record:
  "\<not> have_upsert st \<Longrightarrow>
   upsert_attempts (conn (process_row R rl n tm row st)) = upsert_attempts (conn st)"
proof (cases rule: process_row_cases [where tm = tm and n = n and row = row and st = st])
  case rejected
  then show ?thesis by (simp add: process_row_rejected)
next
  case buffered
  then show ?thesis by (simp add: process_row_buffered)
next
  case flushing
  assume nu: "\<not> have_upsert st"
  let ?st2 = "st\<lparr>line_no := line_no st + 1, batch := batch st @ [make_tpl R tm (row_vals n row)]\<rparr>"
  obtain r st3 where f: "flush_batch rl ?st2 = (r, st3)"
    by (cases "flush_batch rl ?st2")
  have "upsert_attempts (conn st3) = upsert_attempts (conn st)"
    using flush_batch_per_record_attempts [OF f] nu by simp
  then show ?thesis
    using f by (cases r) (simp_all add: process_row_flushing [OF flushing])
qed



lemma run_rows_Cons:
  "run_rows R rl n tm (row # rows) st = run_rows R rl n tm rows (process_row R rl n tm row st)"
  by (simp add: run_rows_def)

lemma run_rows_append:
  "run_rows R rl n tm (xs @ ys) st = run_rows R rl n tm ys (run_rows R rl n tm xs st)"
  by (simp add: run_rows_def)

lemma run_rows_frame:
  "frame (conn st) (conn (run_rows R rl n tm rows st))
   \<and> line_no (run_rows R rl n tm rows st) = line_no st + length rows
   \<and> (\<exists>suf. error_lines (run_rows R rl n tm rows st) = error_lines st @ suf)
   \<and> (have_upsert (run_rows R rl n tm rows st) \<longrightarrow> have_upsert st)"
proof (induction rows arbitrary: st)
  case Nil
  show ?case by (simp add: run_rows_def frame_refl)
next
  case (Cons row rows)
  let ?st1 = "process_row R rl n tm row st"
  note p = process_row_frame [where st = st and R = R and rl = rl and n = n and tm = tm and row = row]
  note r = Cons.IH [where st = ?st1]
  from p r have "frame (conn st) (conn (run_rows R rl n tm rows ?st1))"
    using frame_trans by blast
  moreover from p r have "line_no (run_rows R rl n tm rows ?st1) = line_no st + length (row # rows)"
    by simp
  moreover from p r have "\<exists>suf. error_lines (run_rows R rl n tm rows ?st1) = error_lines st @ suf"
    by (metis append.assoc)
  moreover from p r have "have_upsert (run_rows R rl n tm rows ?st1) \<longrightarrow> have_upsert st"
    by blast
  ultimately show ?case by (simp only: run_rows_Cons)
qed

lemma run_rows_per_record:
  "\<not> have_upsert st \<Longrightarrow>
   upsert_attempts (conn (run_rows R rl n tm rows st)) = upsert_attempts (conn st)"
proof (induction rows arbitrary: st)
  case Nil
  show ?case by (simp add: run_rows_def)
next
  case (Cons row rows)
  have "\<not> have_upsert (process_row R rl n tm row st)"
    using Cons.prems process_row_frame by blast
  from Cons.IH [OF this] show ?case
    using process_row_per_record [OF Cons.prems] by (simp add: run_rows_Cons)
qed


section \<open>A whole run on a store that does not fail\<close>


section \<open>The table after a sequence of upserts\<close>

lemma keys_sql_update: "map fst (sql_update t T) = map fst T"
  by (induction T) (auto simp: sql_update_def)

lemma keys_sql_upsert:
  "map fst (sql_upsert t T) = (if has_sku (fst t) T then map fst T else map fst T @ [fst t])"
  by (simp add: sql_upsert_def keys_sql_update sql_insert_def)





lemma fold_upsert_snoc: "fold sql_upsert (ts @ [t]) T = sql_upsert t (fold sql_upsert ts T)"
  by simp


lemma keys_fold_upsert: "fst ` set (fold sql_upsert ts T) = fst ` set T \<union> fst ` set ts"
proof (induction ts rule: rev_induct)
  case Nil
  show ?case by simp
next
  case (snoc t ts)
  have "fst ` set (sql_upsert t X) = insert (fst t) (fst ` set X)" for X :: "('a \<times> 'b) list"
  proof -
    have "set (map fst (sql_upsert t X)) = insert (fst t) (set (map fst X))"
      by (auto simp: keys_sql_upsert has_sku_def)
    then show ?thesis by simp
  qed
  then show ?case
    using snoc.IH by auto
qed






lemma fold_upsert_other_rows:
  "s \<notin> fst ` set ts \<Longrightarrow> filter (\<lambda>r. fst r = s) (fold sql_upsert ts T) = filter (\<lambda>r. fst r = s) T"
proof (induction ts rule: rev_induct)
  case Nil
  show ?case by simp
next
  case (snoc t ts)
  then have ih: "filter (\<lambda>r. fst r = s) (fold sql_upsert ts T) = filter (\<lambda>r. fst r = s) T"
    and ne: "fst t \<noteq> s"
    by auto
  have "filter (\<lambda>r. fst r = s) (sql_update t X) = filter (\<lambda>r. fst r = s) X" for X
    using ne by (induction X) (auto simp: sql_update_def)
  then have "filter (\<lambda>r. fst r = s) (sql_upsert t X) = filter (\<lambda>r. fst r = s) X" for X
    using ne by (simp add: sql_upsert_def sql_insert_def)
  then show ?case using ih by simp
qed

section \<open>The small import, evaluated\<close>

lemma demo_headers:
  "dedupe_headers (map (normalize_header (unicode_lower demo_runtime)) [str ''SKU'', str ''Title''])
     = [str ''sku'', str ''title'']"
proof -
  have "map (normalize_header (unicode_lower demo_runtime)) [str ''SKU'', str ''Title'']
          = [str ''sku'', str ''title'']"
    by (simp add: normalize_header_def strip_def is_space_def lower_def lower_ascii_def str_def upt_rec)
  moreover have "dedupe_headers [str ''sku'', str ''title''] = [str ''sku'', str ''title'']"
    by (simp add: dedupe_headers_def str_def)
  ultimately show ?thesis by simp
qed

lemma demo_map:
  "build_header_map [str ''sku'', str ''title''] (str ''sku'') = Some 0"
  "build_header_map [str ''sku'', str ''title''] (str ''name'') = Some 1"
  "build_header_map [str ''sku'', str ''title''] (str ''price'') = None"
  "build_header_map [str ''sku'', str ''title''] (str ''stock'') = None"
  "build_header_map [str ''sku'', str ''title''] (str ''category'') = None"
  "build_header_map [str ''sku'', str ''title''] (str ''status'') = None"
  "build_header_map [str ''sku'', str ''title''] (str ''image_path'') = None"
  "build_header_map [str ''sku'', str ''title''] (str ''description'') = None"
  by (simp_all add: build_header_map_def synonyms_def map_target_def str_def)

lemma demo_vals:
  "row_vals (Suc (Suc 0)) [str ''A1'', str ''Widget''] = [str ''A1'', str ''Widget'']"
  "row_vals (Suc (Suc 0)) [str '''', str ''NoSku''] = [[], str ''NoSku'']"
  "row_vals (Suc (Suc 0)) [str ''A1'', str ''Gadget''] = [str ''A1'', str ''Gadget'']"
  by (simp_all add: row_vals_def sanitize_cell_def strip_def is_space_def str_def upt_rec)

lemma demo_rejected:
  "\<not> row_rejected (build_header_map [str ''sku'', str ''title'']) [str ''A1'', str ''Widget'']"
  "row_rejected (build_header_map [str ''sku'', str ''title'']) [[], str ''NoSku'']"
  "\<not> row_rejected (build_header_map [str ''sku'', str ''title'']) [str ''A1'', str ''Gadget'']"
  by (simp_all add: row_rejected_def get_by_target_def demo_map) (simp_all add: str_def)

lemma demo_blank_numbers: "to_float demo_runtime [] = 0" "to_int demo_runtime [] = 0"
  by (simp_all add: to_float_def to_int_def strip_def)

lemma demo_make_tpl:
  "make_tpl demo_runtime (build_header_map [str ''sku'', str ''title'']) [str ''A1'', str ''Widget''] = widget"
  "make_tpl demo_runtime (build_header_map [str ''sku'', str ''title'']) [str ''A1'', str ''Gadget''] = gadget"
  by (simp_all add: make_tpl_def get_by_target_def demo_map demo_blank_numbers widget_def gadget_def)





lemma demo_table_again: "fold sql_upsert [widget, gadget] [gadget] = [gadget]"
  by (simp add: sql_upsert_def sql_update_def sql_insert_def has_sku_def widget_def gadget_def)

section \<open>Claims about the loader\<close>





text \<open>
  C5. First, a flush on the atomic strategy whose \<open>executemany\<close> raises an
  \<open>OperationalError\<close>, on a connection that raises nothing afterwards: the flush returns
  normally, its connection is the one the per-record loop leaves after going through the
  whole batch, every sku of the batch is in the pending table, the flag is cleared and the
  atomic form was not tried a second time. Secondly, once the flag is cleared it stays
  cleared, and the connection is never again asked to run the atomic form: through one
  flush, and through any further rows of the run, whatever the store does.
\<close>

theorem fallback_is_sticky:
  "(have_upsert st \<and> batch st \<noteq> [] \<and> executemany (conn st) (batch st) = (Some e, c1)
      \<and> is_operational e \<and> healthy c1 \<longrightarrow>
      (\<exists>c2. per_record c1 (batch st) = (None, c2)
         \<and> flush_batch (Suc (Suc d)) st = (None, st\<lparr>conn := c2, have_upsert := False, batch := []\<rparr>)
         \<and> pending c2 = fold sql_upsert (batch st) (pending c1)
         \<and> (\<forall>t\<in>set (batch st). has_sku (fst t) (pending c2))
         \<and> upsert_attempts c2 = upsert_attempts c1))
   \<and> (\<not> have_upsert st \<longrightarrow>
        \<not> have_upsert (snd (flush_batch rl st))
        \<and> upsert_attempts (conn (snd (flush_batch rl st))) = upsert_attempts (conn st))
   \<and> (\<not> have_upsert st \<longrightarrow>
        \<not> have_upsert (run_rows R rl n tm rows st)
        \<and> upsert_attempts (conn (run_rows R rl n tm rows st)) = upsert_attempts (conn st))"
proof (intro conjI impI)
  assume a: "have_upsert st \<and> batch st \<noteq> [] \<and> executemany (conn st) (batch st) = (Some e, c1)
      \<and> is_operational e \<and> healthy c1"
  then have hu: "have_upsert st" and ne: "batch st \<noteq> []"
    and ex: "executemany (conn st) (batch st) = (Some e, c1)" and op: "is_operational e"
    and h1: "healthy c1"
    by simp_all
  from per_record_healthy [OF h1, of "batch st"] obtain c2 where
    pr: "per_record c1 (batch st) = (None, c2)" and p2: "pending c2 = fold sql_upsert (batch st) (pending c1)"
    by blast
  have inner: "flush_batch (Suc d) (st\<lparr>conn := c1, have_upsert := False\<rparr>)
                 = (None, st\<lparr>conn := c2, have_upsert := False, batch := []\<rparr>)"
    using ne pr by simp
  have outer: "flush_batch (Suc (Suc d)) st = (None, st\<lparr>conn := c2, have_upsert := False, batch := []\<rparr>)"
    by (subst flush_batch.simps(2)) (simp add: ne hu ex op inner del: flush_batch.simps)
  have "fst ` set (batch st) \<subseteq> fst ` set (pending c2)"
    by (simp add: p2 keys_fold_upsert)
  then have keys: "\<forall>t\<in>set (batch st). has_sku (fst t) (pending c2)"
    by (auto simp: has_sku_def)
  have att: "upsert_attempts c2 = upsert_attempts c1"
    using pr by (rule per_record_attempts)
  show "\<exists>c2. per_record c1 (batch st) = (None, c2)
         \<and> flush_batch (Suc (Suc d)) st = (None, st\<lparr>conn := c2, have_upsert := False, batch := []\<rparr>)
         \<and> pending c2 = fold sql_upsert (batch st) (pending c1)
         \<and> (\<forall>t\<in>set (batch st). has_sku (fst t) (pending c2))
         \<and> upsert_attempts c2 = upsert_attempts c1"
    using pr outer p2 keys att by blast
next
  assume nu: "\<not> have_upsert st"
  obtain r st' where f: "flush_batch rl st = (r, st')"
    by (cases "flush_batch rl st")
  show "\<not> have_upsert (snd (flush_batch rl st))"
    using flush_batch_frame [OF f] nu f by simp
  show "upsert_attempts (conn (snd (flush_batch rl st))) = upsert_attempts (conn st)"
    using flush_batch_per_record_attempts [OF f nu] f by simp
next
  assume nu: "\<not> have_upsert st"
  show "\<not> have_upsert (run_rows R rl n tm rows st)"
    using run_rows_frame nu by blast
  show "upsert_attempts (conn (run_rows R rl n tm rows st)) = upsert_attempts (conn st)"
    using nu by (rule run_rows_per_record)
qed

theorem fallback_is_sticky_witness:
  "have_upsert \<lparr>conn = demo_conn False, have_upsert = True, batch = [widget], skipped = 0,
                error_lines = [], line_no = 2\<rparr>
   \<and> executemany (demo_conn False) [widget]
       = (Some (OperationalError (str ''near ON: syntax error'')),
          (demo_conn False)\<lparr>trace := [ExecuteMany]\<rparr>)
   \<and> healthy ((demo_conn False)\<lparr>trace := [ExecuteMany]\<rparr>)
   \<and> (\<exists>c2. flush_batch 2 \<lparr>conn = demo_conn False, have_upsert = True, batch = [widget], skipped = 0,
                           error_lines = [], line_no = 2\<rparr>
            = (None, \<lparr>conn = c2, have_upsert = False, batch = [], skipped = 0,
                      error_lines = [], line_no = 2\<rparr>)
          \<and> pending c2 = [widget] \<and> upsert_attempts c2 = 1)"
proof -
  let ?st = "\<lparr>conn = demo_conn False, have_upsert = True, batch = [widget], skipped = 0,
              error_lines = [], line_no = 2\<rparr>"
  let ?e = "OperationalError (str ''near ON: syntax error'')"
  let ?c1 = "(demo_conn False)\<lparr>trace := [ExecuteMany]\<rparr>"
  have ex: "executemany (demo_conn False) [widget] = (Some ?e, ?c1)"
    by (simp add: executemany_def demo_conn_def)
  have h1: "healthy ?c1"
    by (simp add: healthy_def demo_conn_def)
  have pre: "have_upsert ?st \<and> batch ?st \<noteq> [] \<and> executemany (conn ?st) (batch ?st) = (Some ?e, ?c1)
      \<and> is_operational ?e \<and> healthy ?c1"
    using ex h1 by simp
  have p1: "fold sql_upsert [widget] (pending ?c1) = [widget]"
    by (simp add: sql_upsert_def sql_insert_def has_sku_def demo_conn_def)
  have a1: "upsert_attempts ?c1 = 1"
    by (simp add: upsert_attempts_def)
  from fallback_is_sticky [of ?st ?e ?c1 0] pre obtain c2 where
    "flush_batch (Suc (Suc 0)) ?st = (None, ?st\<lparr>conn := c2, have_upsert := False, batch := []\<rparr>)"
    "pending c2 = fold sql_upsert (batch ?st) (pending ?c1)"
    "upsert_attempts c2 = upsert_attempts ?c1"
    by blast
  then have "flush_batch 2 ?st = (None, \<lparr>conn = c2, have_upsert = False, batch = [], skipped = 0,
                      error_lines = [], line_no = 2\<rparr>)
          \<and> pending c2 = [widget] \<and> upsert_attempts c2 = 1"
    using p1 a1 by (simp add: numeral_2_eq_2 del: flush_batch.simps)
  then show ?thesis
    using ex h1 by (simp del: flush_batch.simps)
qed



section \<open>A store failure during a mid-stream flush\<close>

lemma executemany_rows_quiet:
  "quiet c (length ts) \<Longrightarrow>
   \<exists>c'. executemany_rows c ts = (None, c') \<and> pending c' = fold sql_upsert ts (pending c)
        \<and> clock c' = clock c + length ts"
proof (induction ts arbitrary: c)
  case Nil
  then show ?case by simp
next
  case (Cons t ts)
  let ?c1 = "c\<lparr>clock := Suc (clock c), trace := trace c @ [Upsert (fst t)],
               pending := sql_upsert t (pending c)\<rparr>"
  have "faults c (clock c + 0) = None"
    using Cons.prems unfolding quiet_def by (metis length_greater_0_conv list.discI)
  then have now: "faults c (clock c) = None"
    by simp
  have e: "execute (Upsert (fst t)) (sql_upsert t) c = (None, ?c1)"
    using now by (rule execute_ok)
  have "quiet ?c1 (length ts)"
    unfolding quiet_def
  proof (intro allI impI)
    fix k assume "k < length ts"
    then have "Suc k < length (t # ts)" by simp
    then have "faults c (clock c + Suc k) = None"
      using Cons.prems unfolding quiet_def by blast
    then show "faults ?c1 (clock ?c1 + k) = None" by simp
  qed
  from Cons.IH [OF this] obtain c' where
    "executemany_rows ?c1 ts = (None, c')" "pending c' = fold sql_upsert ts (pending ?c1)"
    "clock c' = clock ?c1 + length ts"
    by blast
  then show ?case using e by simp
qed

lemma executemany_quiet:
  "supports_upsert c \<Longrightarrow> quiet c (length ts) \<Longrightarrow>
   \<exists>c'. executemany c ts = (None, c') \<and> pending c' = fold sql_upsert ts (pending c)
        \<and> clock c' = clock c + length ts"
proof -
  assume s: "supports_upsert c" and q: "quiet c (length ts)"
  have "quiet (c\<lparr>trace := trace c @ [ExecuteMany]\<rparr>) (length ts)"
    using q by (simp add: quiet_def)
  from executemany_rows_quiet [OF this] show ?thesis
    using s by (simp add: executemany_def Let_def)
qed

lemma executemany_first_raises:
  "supports_upsert c \<Longrightarrow> faults c (clock c) = Some e \<Longrightarrow> ts \<noteq> [] \<Longrightarrow>
   \<exists>c'. executemany c ts = (Some e, c') \<and> pending c' = pending c \<and> clock c' = Suc (clock c)"
  by (cases ts) (simp_all add: executemany_def Let_def execute_def)

lemma run_rows_buffered:
  "\<not> row_rejected tm (row_vals n row) \<Longrightarrow> length (batch st) + k < BATCH_SIZE \<Longrightarrow>
   run_rows R rl n tm (replicate k row) st =
     st\<lparr>line_no := line_no st + k, batch := batch st @ replicate k (make_tpl R tm (row_vals n row))\<rparr>"
proof (induction k arbitrary: st)
  case 0
  show ?case by (simp add: run_rows_def)
next
  case (Suc k)
  let ?st1 = "st\<lparr>line_no := line_no st + 1, batch := batch st @ [make_tpl R tm (row_vals n row)]\<rparr>"
  have p: "process_row R rl n tm row st = ?st1"
    using Suc.prems by (intro process_row_buffered) simp_all
  have "length (batch ?st1) + k < BATCH_SIZE"
    using Suc.prems(2) by simp
  from Suc.IH [OF Suc.prems(1) this] show ?case
    by (simp add: run_rows_Cons p)
qed

lemma process_row_flushes:
  assumes "\<not> row_rejected tm (row_vals n row)" and "BATCH_SIZE \<le> length (batch st) + 1"
    and "have_upsert st" and "supports_upsert (conn st)"
    and "quiet (conn st) (length (batch st) + 1)"
  shows "\<exists>c'. process_row R (Suc d) n tm row st = st\<lparr>line_no := line_no st + 1, batch := [], conn := c'\<rparr>
    \<and> pending c' = fold sql_upsert (batch st @ [make_tpl R tm (row_vals n row)]) (pending (conn st))
    \<and> clock c' = clock (conn st) + length (batch st) + 1 \<and> frame (conn st) c'"
proof -
  let ?t = "make_tpl R tm (row_vals n row)"
  let ?st2 = "st\<lparr>line_no := line_no st + 1, batch := batch st @ [?t]\<rparr>"
  have "quiet (conn st) (length (batch st @ [?t]))"
    using assms(5) by simp
  from executemany_quiet [OF assms(4) this] obtain c' where
    ex: "executemany (conn st) (batch st @ [?t]) = (None, c')"
    and p: "pending c' = fold sql_upsert (batch st @ [?t]) (pending (conn st))"
    and k: "clock c' = clock (conn st) + length (batch st @ [?t])"
    by blast
  have fr: "frame (conn st) c'"
    using ex by (rule executemany_frame)
  have "flush_batch (Suc d) ?st2 = (None, ?st2\<lparr>conn := c', batch := []\<rparr>)"
    using ex assms(3) by simp
  then have "process_row R (Suc d) n tm row st = ?st2\<lparr>conn := c', batch := []\<rparr>"
    by (simp add: process_row_flushing [OF assms(1) assms(2)] del: flush_batch.simps)
  then show ?thesis
    using p k fr by (intro exI [of _ c']) simp
qed

lemma process_row_swallows:
  assumes "\<not> row_rejected tm (row_vals n row)" and "BATCH_SIZE \<le> length (batch st) + 1"
    and "have_upsert st" and "supports_upsert (conn st)"
    and "faults (conn st) (clock (conn st)) = Some e" and "\<not> is_operational e"
  shows "\<exists>c'. process_row R (Suc d) n tm row st =
        st\<lparr>line_no := line_no st + 1, batch := batch st @ [make_tpl R tm (row_vals n row)], conn := c',
           skipped := skipped st + 1,
           error_lines := error_lines st @ [exn_line (line_no st + 1) e]\<rparr>
    \<and> pending c' = pending (conn st) \<and> clock c' = Suc (clock (conn st)) \<and> frame (conn st) c'"
proof -
  let ?t = "make_tpl R tm (row_vals n row)"
  let ?st2 = "st\<lparr>line_no := line_no st + 1, batch := batch st @ [?t]\<rparr>"
  from executemany_first_raises [OF assms(4) assms(5), of "batch st @ [?t]"] obtain c' where
    ex: "executemany (conn st) (batch st @ [?t]) = (Some e, c')"
    and p: "pending c' = pending (conn st)" and k: "clock c' = Suc (clock (conn st))"
    by auto
  have fr: "frame (conn st) c'"
    using ex by (rule executemany_frame)
  have "flush_batch (Suc d) ?st2 = (Some e, ?st2\<lparr>conn := c'\<rparr>)"
    using ex assms(3) assms(6) by simp
  then have "process_row R (Suc d) n tm row st =
      ?st2\<lparr>conn := c', skipped := skipped st + 1,
           error_lines := error_lines st @ [exn_line (line_no st + 1) e]\<rparr>"
    by (simp add: process_row_flushing [OF assms(1) assms(2)] del: flush_batch.simps)
  then show ?thesis
    using p k fr by (intro exI [of _ c']) simp
qed

lemma fold_upsert_replicate:
  "0 < k \<Longrightarrow> T = [] \<or> T = [t] \<Longrightarrow> fold sql_upsert (replicate k t) T = [t]"
proof (induction k arbitrary: T)
  case 0
  then show ?case by simp
next
  case (Suc k)
  have one: "sql_upsert t T = [t]"
    using Suc.prems(2) by (auto simp: sql_upsert_def sql_update_def sql_insert_def has_sku_def)
  show ?case
  proof (cases k)
    case 0
    then show ?thesis using one by simp
  next
    case (Suc j)
    then have "fold sql_upsert (replicate k t) [t] = [t]"
      using Suc.IH [of "[t]"] by simp
    then show ?thesis using one by simp
  qed
qed

lemma commit_frame_only_on_success:
  "commit c = (r, c') \<Longrightarrow> (r = None \<longrightarrow> committed c' = pending c) \<and> (r \<noteq> None \<longrightarrow> committed c' = committed c)"
  by (auto simp: commit_def Let_def split: option.splits)

text \<open>
  The outer handler does what it is there for: whenever the run ends in \<open>Failed\<close>, the
  committed table is the one from before the run.
\<close>

lemma worker_failed_keeps_committed:
  assumes "fst (worker R rl file c) = Failed e"
  shows "committed (conn (snd (worker R rl file c))) = committed c"
proof (cases "file")
  case Nil
  then show ?thesis by (simp add: worker_def rollback_def)
next
  case (Cons raw_headers rows)
  show ?thesis
  proof (cases "raw_headers = []")
    case True
    then show ?thesis using Cons by (simp add: worker_def rollback_def)
  next
    case False
    let ?hn = "dedupe_headers (map (normalize_header (unicode_lower R)) raw_headers)"
    let ?st0 = "\<lparr>conn = begin_txn c, have_upsert = True, batch = [], skipped = 0,
                 error_lines = [], line_no = 1\<rparr>"
    let ?st1 = "run_rows R rl (length ?hn) (build_header_map ?hn) rows ?st0"
    obtain r st2 where f: "flush_batch rl ?st1 = (r, st2)"
      by (cases "flush_batch rl ?st1")
    obtain r' c' where cm: "commit (conn st2) = (r', c')"
      by (cases "commit (conn st2)")
    have "frame (conn ?st0) (conn ?st1)"
      using run_rows_frame by blast
    moreover have "frame (conn ?st1) (conn st2)"
      using flush_batch_frame [OF f] by blast
    ultimately have c2: "committed (conn st2) = committed c"
      by (simp add: frame_def begin_txn_def)
    have w: "worker R rl file c =
        (case r of
           Some e \<Rightarrow> (Failed e, st2\<lparr>conn := rollback (conn st2)\<rparr>)
         | None \<Rightarrow> (case r' of Some e \<Rightarrow> (Failed e, st2\<lparr>conn := rollback c'\<rparr>)
                               | None \<Rightarrow> (Done, st2\<lparr>conn := c'\<rparr>)))"
      using Cons False f cm
      by (cases r; cases r') (simp_all add: worker_def Let_def del: flush_batch.simps)
    show ?thesis
    proof (cases r)
      case (Some x)
      then show ?thesis using w c2 by (simp add: rollback_def del: flush_batch.simps)
    next
      case None
      then obtain y where "r' = Some y"
        using assms w by (cases r') (simp_all del: flush_batch.simps)
      then show ?thesis
        using None w c2 commit_frame_only_on_success [OF cm]
        by (simp add: rollback_def del: flush_batch.simps)
    qed
  qed
qed

lemma flush_batch_empty: "0 < rl \<Longrightarrow> batch st = [] \<Longrightarrow> flush_batch rl st = (None, st)"
  by (cases rl) simp_all

lemma long_row:
  "\<not> row_rejected (build_header_map [str ''sku'', str ''title''])
       (row_vals (Suc (Suc 0)) [str ''A1'', str ''Widget''])"
  "make_tpl demo_runtime (build_header_map [str ''sku'', str ''title''])
       (row_vals (Suc (Suc 0)) [str ''A1'', str ''Widget'']) = widget"
  by (simp_all add: demo_vals demo_rejected demo_make_tpl)

lemma long_rows_split:
  "replicate 1001 x = replicate 499 x @ [x] @ replicate 499 x @ [x] @ [x]"
proof -
  have "replicate (499 + (1 + (499 + (1 + 1)))) x
          = replicate 499 x @ replicate 1 x @ replicate 499 x @ replicate 1 x @ replicate 1 x"
    by (simp only: replicate_add)
  then show ?thesis by simp
qed

text \<open>
  C1, evaluated on the code. In the long import the first batch of 500 rows is flushed, and
  the second mid-stream flush (reached by data row 1000, line 1001) raises. The exception
  leaves \<open>flush_batch\<close> and is caught by the \<open>except Exception\<close> of the row: the row is
  counted as skipped, a diagnostic for line 1001 is recorded, and the loop goes on with
  the batch still buffered. Row 1001 flushes it, the run commits, and the caller sees a
  completed import: nothing is rolled back and no fatal error is surfaced.
\<close>

theorem midstream_failure_is_swallowed:
  "faults flaky_conn 500 = Some disk_error \<and> \<not> is_operational disk_error
   \<and> committed flaky_conn = []
   \<and> fst (worker demo_runtime 1000 long_file flaky_conn) = Done
   \<and> committed (conn (snd (worker demo_runtime 1000 long_file flaky_conn))) = [widget]
   \<and> skipped (snd (worker demo_runtime 1000 long_file flaky_conn)) = 1
   \<and> error_lines (snd (worker demo_runtime 1000 long_file flaky_conn)) = [exn_line 1001 disk_error]"
proof -
  let ?R = demo_runtime
  let ?tm = "build_header_map [str ''sku'', str ''title'']"
  let ?row = "[str ''A1'', str ''Widget'']"
  let ?n = "Suc (Suc 0)"
  let ?c0 = "begin_txn flaky_conn"
  let ?st0 = "\<lparr>conn = ?c0, have_upsert = True, batch = [], skipped = 0, error_lines = [], line_no = 1\<rparr>"
  have rl: "(1000::nat) = Suc 999" by simp
  have rej: "\<not> row_rejected ?tm (row_vals ?n ?row)" by (rule long_row(1))
  have mk: "make_tpl ?R ?tm (row_vals ?n ?row) = widget" by (rule long_row(2))
  have nop: "\<not> is_operational disk_error" by (simp add: disk_error_def)
  have fl: "faults ?c0 = (\<lambda>n. if n = 500 then Some disk_error else None)"
    "supports_upsert ?c0" "clock ?c0 = 0" "pending ?c0 = []" "committed ?c0 = []"
    by (simp_all add: begin_txn_def flaky_conn_def)

  \<comment> \<open>rows 1 to 499 are buffered\<close>
  define s1 where "s1 = ?st0\<lparr>line_no := 500, batch := replicate 499 widget\<rparr>"
  have r1: "run_rows ?R 1000 ?n ?tm (replicate 499 ?row) ?st0 = s1"
    using run_rows_buffered [OF rej, where st = ?st0 and k = 499 and R = ?R and rl = 1000]
    by (simp add: BATCH_SIZE_def mk s1_def)

  \<comment> \<open>row 500 flushes the first batch\<close>
  have q1: "quiet (conn s1) (length (batch s1) + 1)"
    by (simp add: quiet_def s1_def fl)
  from process_row_flushes [OF rej _ _ _ q1, where R = ?R and d = 999] obtain c2 where
    p2: "process_row ?R 1000 ?n ?tm ?row s1 = s1\<lparr>line_no := line_no s1 + 1, batch := [], conn := c2\<rparr>"
    and pd2: "pending c2 = fold sql_upsert (batch s1 @ [widget]) (pending (conn s1))"
    and ck2: "clock c2 = clock (conn s1) + length (batch s1) + 1" and fr2: "frame (conn s1) c2"
    by (auto simp: BATCH_SIZE_def s1_def fl mk rl [symmetric])
  define s2 where "s2 = s1\<lparr>line_no := 501, batch := [], conn := c2\<rparr>"
  have p2': "process_row ?R 1000 ?n ?tm ?row s1 = s2"
    using p2 by (simp add: s2_def s1_def)
  have c2: "pending c2 = [widget]" "clock c2 = 500" "supports_upsert c2"
    "faults c2 = (\<lambda>n. if n = 500 then Some disk_error else None)" "committed c2 = []"
  proof -
    have b1: "batch s1 @ [widget] = replicate 500 widget"
      by (simp add: s1_def replicate_append_same) (simp flip: replicate_Suc)
    have pc: "pending (conn s1) = []"
      by (simp add: s1_def fl)
    show "pending c2 = [widget]"
      unfolding pd2 b1 pc by (rule fold_upsert_replicate) simp_all
    show "clock c2 = 500" using ck2 by (simp add: s1_def fl)
    show "supports_upsert c2" "faults c2 = (\<lambda>n. if n = 500 then Some disk_error else None)"
      "committed c2 = []"
      using fr2 by (simp_all add: frame_def s1_def fl)
  qed

  \<comment> \<open>rows 501 to 999 are buffered\<close>
  define s3 where "s3 = s2\<lparr>line_no := 1000, batch := replicate 499 widget\<rparr>"
  have r3: "run_rows ?R 1000 ?n ?tm (replicate 499 ?row) s2 = s3"
    using run_rows_buffered [OF rej, where st = s2 and k = 499 and R = ?R and rl = 1000]
    by (simp add: BATCH_SIZE_def mk s3_def s2_def s1_def)

  \<comment> \<open>row 1000: the flush raises, the row handler catches\<close>
  have f3: "faults (conn s3) (clock (conn s3)) = Some disk_error"
    by (simp add: s3_def s2_def c2)
  from process_row_swallows [OF rej _ _ _ f3 nop, where R = ?R and d = 999] obtain c4 where
    p4: "process_row ?R 1000 ?n ?tm ?row s3 =
        s3\<lparr>line_no := line_no s3 + 1, batch := batch s3 @ [widget], conn := c4,
           skipped := skipped s3 + 1,
           error_lines := error_lines s3 @ [exn_line (line_no s3 + 1) disk_error]\<rparr>"
    and pd4: "pending c4 = pending (conn s3)" and ck4: "clock c4 = Suc (clock (conn s3))"
    and fr4: "frame (conn s3) c4"
    by (auto simp: BATCH_SIZE_def s3_def s2_def s1_def c2 mk rl [symmetric])
  define s4 where "s4 = s3\<lparr>line_no := 1001, batch := replicate 500 widget, conn := c4,
      skipped := 1, error_lines := [exn_line 1001 disk_error]\<rparr>"
  have b4: "replicate 499 widget @ [widget] = replicate 500 widget"
    by (simp add: replicate_append_same) (simp flip: replicate_Suc)
  have p4': "process_row ?R 1000 ?n ?tm ?row s3 = s4"
    using p4 b4 by (simp add: s4_def s3_def s2_def s1_def)
  have c4: "pending c4 = [widget]" "clock c4 = 501" "supports_upsert c4"
    "faults c4 = (\<lambda>n. if n = 500 then Some disk_error else None)" "committed c4 = []"
    using pd4 ck4 fr4 by (simp_all add: frame_def s3_def s2_def c2)

  \<comment> \<open>row 1001 flushes the retained batch\<close>
  have q4: "quiet (conn s4) (length (batch s4) + 1)"
    by (simp add: quiet_def s4_def c4)
  from process_row_flushes [OF rej _ _ _ q4, where R = ?R and d = 999] obtain c5 where
    p5: "process_row ?R 1000 ?n ?tm ?row s4 = s4\<lparr>line_no := line_no s4 + 1, batch := [], conn := c5\<rparr>"
    and pd5: "pending c5 = fold sql_upsert (batch s4 @ [widget]) (pending (conn s4))"
    and ck5: "clock c5 = clock (conn s4) + length (batch s4) + 1" and fr5: "frame (conn s4) c5"
    by (auto simp: BATCH_SIZE_def s4_def s3_def s2_def s1_def c4 mk rl [symmetric])
  define s5 where "s5 = s4\<lparr>line_no := 1002, batch := [], conn := c5\<rparr>"
  have p5': "process_row ?R 1000 ?n ?tm ?row s4 = s5"
    using p5 by (simp add: s5_def s4_def)
  have c5: "pending c5 = [widget]" "faults c5 (clock c5) = None" "committed c5 = []"
  proof -
    have b5: "batch s4 @ [widget] = replicate 501 widget"
      by (simp add: s4_def replicate_append_same) (simp flip: replicate_Suc)
    have pc: "pending (conn s4) = [widget]"
      by (simp add: s4_def c4)
    show "pending c5 = [widget]"
      unfolding pd5 b5 pc by (rule fold_upsert_replicate) simp_all
    have "clock c5 = 1002" using ck5 by (simp add: s4_def c4)
    moreover have "faults c5 = (\<lambda>n. if n = 500 then Some disk_error else None)"
      using fr5 by (simp add: frame_def s4_def c4)
    ultimately show "faults c5 (clock c5) = None" by simp
    show "committed c5 = []" using fr5 by (simp add: frame_def s4_def c4)
  qed

  \<comment> \<open>the whole loop, the final flush and the commit\<close>
  have nil: "run_rows ?R 1000 ?n ?tm [] st = st" for st
    by (simp add: run_rows_def)
  have run: "run_rows ?R 1000 ?n ?tm (replicate 1001 ?row) ?st0 = s5"
    by (simp only: long_rows_split run_rows_append run_rows_Cons nil r1 p2' r3 p4' p5')
  have fin: "flush_batch 1000 s5 = (None, s5)"
    by (rule flush_batch_empty) (simp_all add: s5_def)
  have cm: "commit (conn s5) =
      (None, c5\<lparr>clock := Suc (clock c5), trace := trace c5 @ [Commit], committed := [widget]\<rparr>)"
    using c5 by (simp add: commit_def Let_def s5_def)
  have w: "worker ?R 1000 long_file flaky_conn =
      (Done, s5\<lparr>conn := c5\<lparr>clock := Suc (clock c5), trace := trace c5 @ [Commit],
                            committed := [widget]\<rparr>\<rparr>)"
    using run fin cm
    by (simp add: worker_def long_file_def Let_def demo_headers del: list.map flush_batch.simps)
  have env: "faults flaky_conn 500 = Some disk_error" "committed flaky_conn = []"
    by (simp_all add: flaky_conn_def)
  have res: "fst (worker ?R 1000 long_file flaky_conn) = Done"
    "committed (conn (snd (worker ?R 1000 long_file flaky_conn))) = [widget]"
    "skipped (snd (worker ?R 1000 long_file flaky_conn)) = 1"
    "error_lines (snd (worker ?R 1000 long_file flaky_conn)) = [exn_line 1001 disk_error]"
    by (simp_all add: w s5_def s4_def del: flush_batch.simps)
  show ?thesis
    using env nop res by blast
qed

end
